theory Spec2Isabelle
  imports Main "HOL-Library.Word"
begin

section \<open>The circular buffer of \<open>circular_buffer.h\<close>\<close>

text \<open>
  The development embeds the two classes of \<open>src/circular_buffer.h\<close>:
  \<open>jaba::CircularBuffer\<close>, a ring of bytes with checkpoints, and
  \<open>jaba::CircularBufferMsgsT\<close>, which frames messages with a length marker.

  Conventions of the embedding:
  \<^item> \<open>size_t\<close> is a 64-bit word (an LP64 platform), so \<open>+\<close> and \<open>-\<close> wrap as in C++;
  \<^item> a \<open>char\<close> is an 8-bit word;
  \<^item> \<open>assert\<close> is compiled in: a failed assertion aborts, which is the result
    \<open>Inl\<close> of the assertion that failed;
  \<^item> a \<open>memcpy\<close> outside the storage or outside the caller's data, a use of storage
    that is not allocated, and a second \<open>delete[]\<close> are undefined behaviour,
    the result \<open>Inl UndefinedBehaviour\<close>;
  \<^item> member functions take the object and return it updated.
\<close>

type_synonym byte = "8 word"
type_synonym size_t = "64 word"

text \<open>
  The member \<open>char* buffer\<close>: the null pointer, a pointer to allocated storage with its
  contents, or a pointer to storage that has been released.
\<close>

datatype storage = Null | Live "byte list" | Freed

datatype error =
    AssertNotAllocated        \<comment> \<open>\<open>assert(allocated_size == 0)\<close> in \<open>create\<close>\<close>
  | AssertBufferNull          \<comment> \<open>\<open>assert(buffer == nullptr)\<close> in \<open>create\<close>\<close>
  | AssertData                \<comment> \<open>\<open>assert(data)\<close> in \<open>push\<close>\<close>
  | AssertSizePositive        \<comment> \<open>\<open>assert(data_size > 0)\<close> in \<open>push\<close>\<close>
  | AssertSizeBelowCapacity   \<comment> \<open>\<open>assert(data_size < allocated_size)\<close> in \<open>push\<close>\<close>
  | AssertIsOk                \<comment> \<open>\<open>assert(is_ok)\<close> in \<open>pushMsg\<close> and \<open>popMsg\<close>\<close>
  | AssertMsgsOrEmpty         \<comment> \<open>\<open>assert(nmsgs > 0 || empty())\<close> in \<open>popMsg\<close>\<close>
  | UndefinedBehaviour

record CircularBuffer =
  buffer :: storage
  allocated_size :: size_t
  head :: size_t
  tail :: size_t
  free_space :: size_t

record CheckPoint =
  cp_head :: size_t
  cp_tail :: size_t
  cp_free_space :: size_t

text \<open>\<open>CircularBufferMsgsT\<close> derives from \<open>CircularBuffer\<close> and adds the counter.\<close>

record CircularBufferMsgs = CircularBuffer +
  nmsgs :: size_t

text \<open>The members' default initialisers: the object before \<open>create\<close>.\<close>

definition new_CircularBuffer :: CircularBuffer where
  "new_CircularBuffer =
     \<lparr>buffer = Null, allocated_size = 0, head = 0, tail = 0, free_space = 0\<rparr>"

definition new_CircularBufferMsgs :: CircularBufferMsgs where
  "new_CircularBufferMsgs =
     \<lparr>buffer = Null, allocated_size = 0, head = 0, tail = 0, free_space = 0, nmsgs = 0\<rparr>"

subsection \<open>Copies\<close>

text \<open>
  \<open>memcpy(buffer + off, src + soff, n)\<close>: \<open>n\<close> bytes of the caller's data \<open>src\<close>, from
  offset \<open>soff\<close>, overwrite the storage from offset \<open>off\<close>.
\<close>

definition memcpy_in :: "storage \<Rightarrow> nat \<Rightarrow> byte list \<Rightarrow> nat \<Rightarrow> nat \<Rightarrow> error + storage" where
  "memcpy_in st off src soff n =
     (case st of
        Live buf \<Rightarrow>
          if off + n \<le> length buf \<and> soff + n \<le> length src
          then Inr (Live (take off buf @ take n (drop soff src) @ drop (off + n) buf))
          else Inl UndefinedBehaviour
      | _ \<Rightarrow> Inl UndefinedBehaviour)"

text \<open>\<open>memcpy(dst, buffer + off, n)\<close>: the \<open>n\<close> bytes read from the storage.\<close>

definition memcpy_out :: "storage \<Rightarrow> nat \<Rightarrow> nat \<Rightarrow> error + byte list" where
  "memcpy_out st off n =
     (case st of
        Live buf \<Rightarrow>
          if off + n \<le> length buf then Inr (take n (drop off buf))
          else Inl UndefinedBehaviour
      | _ \<Rightarrow> Inl UndefinedBehaviour)"

subsection \<open>\<open>CircularBuffer\<close>\<close>

text \<open>
  \<open>create\<close>: \<open>new char[new_size]\<close> returns storage whose contents are indeterminate;
  they are the parameter \<open>fresh\<close>, a byte for every offset.
\<close>

definition create ::
  "size_t \<Rightarrow> (nat \<Rightarrow> byte) \<Rightarrow> 'a CircularBuffer_scheme \<Rightarrow> error + 'a CircularBuffer_scheme" where
  "create new_size fresh s =
     (if \<not> allocated_size s = 0 then Inl AssertNotAllocated
      else if \<not> buffer s = Null then Inl AssertBufferNull
      else Inr (s\<lparr>buffer := Live (map fresh [0..<unat new_size]),
                  allocated_size := new_size,
                  free_space := new_size,
                  head := 0, tail := 0\<rparr>))"

definition clear :: "'a CircularBuffer_scheme \<Rightarrow> 'a CircularBuffer_scheme" where
  "clear s = s\<lparr>head := 0, tail := 0\<rparr>"

text \<open>
  \<open>destroy\<close>: \<open>delete[] buffer\<close> releases the storage and leaves the pointer as it is
  (deleting the null pointer does nothing, deleting released storage again is undefined).
\<close>

definition destroy :: "'a CircularBuffer_scheme \<Rightarrow> error + 'a CircularBuffer_scheme" where
  "destroy s =
     (case buffer s of
        Freed \<Rightarrow> Inl UndefinedBehaviour
      | Null \<Rightarrow> Inr (clear (s\<lparr>allocated_size := 0, free_space := 0\<rparr>))
      | Live buf \<Rightarrow> Inr (clear (s\<lparr>buffer := Freed, allocated_size := 0, free_space := 0\<rparr>)))"

definition saveCheckPoint :: "'a CircularBuffer_scheme \<Rightarrow> CheckPoint" where
  "saveCheckPoint s = \<lparr>cp_head = head s, cp_tail = tail s, cp_free_space = free_space s\<rparr>"

definition loadCheckPoint :: "CheckPoint \<Rightarrow> 'a CircularBuffer_scheme \<Rightarrow> 'a CircularBuffer_scheme" where
  "loadCheckPoint check_point s =
     s\<lparr>tail := cp_tail check_point, head := cp_head check_point,
       free_space := cp_free_space check_point\<rparr>"

definition isValid :: "'a CircularBuffer_scheme \<Rightarrow> bool" where
  "isValid s \<longleftrightarrow> buffer s \<noteq> Null \<and> allocated_size s > 0"

definition empty_buf :: "'a CircularBuffer_scheme \<Rightarrow> bool" where
  "empty_buf s \<longleftrightarrow> free_space s = allocated_size s"

definition capacity :: "'a CircularBuffer_scheme \<Rightarrow> size_t" where
  "capacity s = allocated_size s"

definition bytesUsed :: "'a CircularBuffer_scheme \<Rightarrow> size_t" where
  "bytesUsed s = allocated_size s - free_space s"

definition bytesFree :: "'a CircularBuffer_scheme \<Rightarrow> size_t" where
  "bytesFree s = free_space s"

text \<open>
  \<open>push(data, data_size)\<close>: \<open>data\<close> is \<open>None\<close> for the null pointer and otherwise the
  bytes the pointer refers to. The result is the returned \<open>bool\<close> and the object.
\<close>

definition push ::
  "byte list option \<Rightarrow> size_t \<Rightarrow> 'a CircularBuffer_scheme
     \<Rightarrow> error + bool \<times> 'a CircularBuffer_scheme" where
  "push data data_size s =
     (if data_size > free_space s then Inr (False, s)
      else case data of
        None \<Rightarrow> Inl AssertData
      | Some src \<Rightarrow>
          if \<not> data_size > 0 then Inl AssertSizePositive
          else if \<not> data_size < allocated_size s then Inl AssertSizeBelowCapacity
          else
            let s1 = s\<lparr>free_space := free_space s - data_size\<rparr>;
                bytes_to_wrap = allocated_size s1 - head s1
            in if bytes_to_wrap \<ge> data_size then
                 (case memcpy_in (buffer s1) (unat (head s1)) src 0 (unat data_size) of
                    Inl e \<Rightarrow> Inl e
                  | Inr b \<Rightarrow> Inr (True, s1\<lparr>buffer := b, head := head s1 + data_size\<rparr>))
               else
                 (case memcpy_in (buffer s1) (unat (head s1)) src 0 (unat bytes_to_wrap) of
                    Inl e \<Rightarrow> Inl e
                  | Inr b1 \<Rightarrow>
                      let new_head = data_size - bytes_to_wrap
                      in (case memcpy_in b1 0 src (unat bytes_to_wrap) (unat new_head) of
                            Inl e \<Rightarrow> Inl e
                          | Inr b2 \<Rightarrow> Inr (True, s1\<lparr>buffer := b2, head := new_head\<rparr>))))"

text \<open>
  \<open>pop(data, data_size)\<close>: the result is the returned \<open>bool\<close>, the bytes written to
  \<open>data\<close> (none when it returns false) and the object.
\<close>

definition pop ::
  "size_t \<Rightarrow> 'a CircularBuffer_scheme \<Rightarrow> error + bool \<times> byte list \<times> 'a CircularBuffer_scheme" where
  "pop data_size s =
     (let used_space = bytesUsed s
      in if used_space < data_size then Inr (False, [], s)
         else
           let bytes_to_wrap = allocated_size s - tail s
           in if bytes_to_wrap \<ge> data_size then
                (case memcpy_out (buffer s) (unat (tail s)) (unat data_size) of
                   Inl e \<Rightarrow> Inl e
                 | Inr out \<Rightarrow>
                     Inr (True, out,
                          s\<lparr>tail := tail s + data_size, free_space := free_space s + data_size\<rparr>))
              else
                (case memcpy_out (buffer s) (unat (tail s)) (unat bytes_to_wrap) of
                   Inl e \<Rightarrow> Inl e
                 | Inr out1 \<Rightarrow>
                     let new_tail = data_size - bytes_to_wrap
                     in (case memcpy_out (buffer s) 0 (unat new_tail) of
                           Inl e \<Rightarrow> Inl e
                         | Inr out2 \<Rightarrow>
                             Inr (True, out1 @ out2,
                                  s\<lparr>tail := new_tail, free_space := free_space s + data_size\<rparr>))))"

subsection \<open>The marker\<close>

text \<open>
  The template parameter \<open>msg_separatr_size_t\<close> is an unsigned integer type of
  \<open>LENGTH('w)\<close> bits, passed as \<open>TYPE('w)\<close>; \<open>uint16_t\<close>, the default, is \<open>TYPE(16)\<close>.
  \<open>push(&msg_size, sizeof(msg_size_t))\<close> copies the object representation of the marker,
  which is its bytes from the least significant one (a little-endian platform).
\<close>

definition sizeof_msg_size_t :: "'w::len itself \<Rightarrow> size_t" where
  "sizeof_msg_size_t _ = of_nat (LENGTH('w) div 8)"

fun le_bytes :: "nat \<Rightarrow> nat \<Rightarrow> byte list" where
  "le_bytes 0 v = []"
| "le_bytes (Suc k) v = of_nat (v mod 256) # le_bytes k (v div 256)"

fun le_value :: "byte list \<Rightarrow> nat" where
  "le_value [] = 0"
| "le_value (b # bs) = unat b + 256 * le_value bs"

definition marker_bytes :: "'w::len word \<Rightarrow> byte list" where
  "marker_bytes m = le_bytes (LENGTH('w) div 8) (unat m)"

definition marker_of_bytes :: "byte list \<Rightarrow> 'w::len word" where
  "marker_of_bytes bs = of_nat (le_value bs)"

subsection \<open>\<open>CircularBufferMsgsT\<close>\<close>

definition numMsgs :: "'a CircularBufferMsgs_scheme \<Rightarrow> size_t" where
  "numMsgs s = nmsgs s"

definition pushMsg ::
  "'w::len itself \<Rightarrow> byte list option \<Rightarrow> size_t \<Rightarrow> 'a CircularBufferMsgs_scheme
     \<Rightarrow> error + bool \<times> 'a CircularBufferMsgs_scheme" where
  "pushMsg W data data_size s =
     (if data_size + sizeof_msg_size_t W > free_space s then Inr (False, s)
      else
        let msg_size = (ucast data_size :: 'w word)
        in (case push (Some (marker_bytes msg_size)) (sizeof_msg_size_t W) s of
              Inl e \<Rightarrow> Inl e
            | Inr (is_ok, s1) \<Rightarrow>
                if \<not> is_ok then Inl AssertIsOk
                else (case push data data_size s1 of
                        Inl e \<Rightarrow> Inl e
                      | Inr (pushed, s2) \<Rightarrow>
                          let is_ok = (is_ok \<and> pushed)
                          in if \<not> is_ok then Inl AssertIsOk
                             else Inr (is_ok, s2\<lparr>nmsgs := nmsgs s2 + 1\<rparr>))))"

text \<open>
  \<open>popMsg(data, max_data_size)\<close> returns a \<open>size_t\<close>; its \<open>return false\<close> is the value 0.
  The result is the returned value, the bytes written to \<open>data\<close> and the object.
\<close>

definition popMsg ::
  "'w::len itself \<Rightarrow> size_t \<Rightarrow> 'a CircularBufferMsgs_scheme
     \<Rightarrow> error + size_t \<times> byte list \<times> 'a CircularBufferMsgs_scheme" where
  "popMsg W max_data_size s =
     (let used_space = bytesUsed s
      in if used_space < sizeof_msg_size_t W then Inr (0, [], s)
         else
           let check_point = saveCheckPoint s
           in (case pop (sizeof_msg_size_t W) s of
                 Inl e \<Rightarrow> Inl e
               | Inr (is_ok, marker, s1) \<Rightarrow>
                   if \<not> is_ok then Inl AssertIsOk
                   else
                     let msg_size = (marker_of_bytes marker :: 'w word)
                     in if (ucast msg_size :: size_t) > max_data_size
                        then Inr (0, [], loadCheckPoint check_point s1)
                        else (case pop (ucast msg_size) s1 of
                                Inl e \<Rightarrow> Inl e
                              | Inr (is_ok, out, s2) \<Rightarrow>
                                  if \<not> is_ok then Inl AssertIsOk
                                  else
                                    let s3 = s2\<lparr>nmsgs := nmsgs s2 - 1\<rparr>
                                    in if \<not> (nmsgs s3 > 0 \<or> empty_buf s3)
                                       then Inl AssertMsgsOrEmpty
                                       else Inr (ucast msg_size, out,
                                                 if nmsgs s3 = 0 then clear s3 else s3))))"

section \<open>Specification vocabulary\<close>

subsection \<open>The ring as a queue of bytes\<close>

text \<open>
  A state is well formed when the storage is allocated with \<open>allocated_size\<close> bytes, the
  cursors and the free space do not exceed the capacity, and the write cursor is the read
  cursor advanced by the number of bytes in use, modulo the capacity.
\<close>

definition well_formed :: "'a CircularBuffer_scheme \<Rightarrow> bool" where
  "well_formed s \<longleftrightarrow>
     (case buffer s of
        Live buf \<Rightarrow>
          length buf = unat (allocated_size s) \<and>
          head s \<le> allocated_size s \<and> tail s \<le> allocated_size s \<and>
          free_space s \<le> allocated_size s \<and>
          (unat (tail s) + unat (bytesUsed s)) mod unat (allocated_size s)
             = unat (head s) mod unat (allocated_size s)
      | _ \<Rightarrow> False)"

text \<open>The bytes in use, oldest first: \<open>bytesUsed\<close> bytes from the read cursor, wrapping.\<close>

definition contents :: "'a CircularBuffer_scheme \<Rightarrow> byte list" where
  "contents s =
     (case buffer s of
        Live buf \<Rightarrow>
          map (\<lambda>i. buf ! ((unat (tail s) + i) mod unat (allocated_size s)))
              [0..<unat (bytesUsed s)]
      | _ \<Rightarrow> [])"

subsection \<open>Framed messages\<close>

text \<open>The marker types of interest: whole bytes, no wider than \<open>size_t\<close>.\<close>

definition marker_width_ok :: "'w::len itself \<Rightarrow> bool" where
  "marker_width_ok W \<longleftrightarrow> 8 dvd LENGTH('w) \<and> LENGTH('w) \<le> 64"

text \<open>A record is the marker holding the payload's length, then the payload.\<close>

definition frame :: "'w::len itself \<Rightarrow> byte list \<Rightarrow> byte list" where
  "frame W m = marker_bytes (of_nat (length m) :: 'w word) @ m"

definition frames :: "'w::len itself \<Rightarrow> byte list list \<Rightarrow> byte list" where
  "frames W ms = concat (map (frame W) ms)"

text \<open>
  \<open>msgs_inv W s ms\<close>: the state is well formed, it holds exactly the records of the
  payloads \<open>ms\<close>, oldest first, each short enough for the marker, and counts them.
\<close>

definition msgs_inv ::
  "'w::len itself \<Rightarrow> 'a CircularBufferMsgs_scheme \<Rightarrow> byte list list \<Rightarrow> bool" where
  "msgs_inv W s ms \<longleftrightarrow>
     well_formed s \<and> contents s = frames W ms \<and> unat (nmsgs s) = length ms \<and>
     list_all (\<lambda>m. length m < 2 ^ LENGTH('w)) ms"

subsection \<open>Sequences of calls\<close>

text \<open>
  A sequence of \<open>push\<close> and \<open>pop\<close> calls, run in order on an object; a call that
  aborts ends the run with its error.
\<close>

datatype raw_op = Push "byte list option" size_t | Pop size_t

fun run :: "raw_op list \<Rightarrow> 'a CircularBuffer_scheme \<Rightarrow> error + 'a CircularBuffer_scheme" where
  "run [] s = Inr s"
| "run (Push data data_size # ops) s =
     (case push data data_size s of Inl e \<Rightarrow> Inl e | Inr (ok, s') \<Rightarrow> run ops s')"
| "run (Pop data_size # ops) s =
     (case pop data_size s of Inl e \<Rightarrow> Inl e | Inr (ok, out, s') \<Rightarrow> run ops s')"

text \<open>
  A sequence of \<open>pop\<close> calls with the given sizes; each call contributes the
  \<open>bool\<close> it returned and the bytes it wrote.
\<close>

fun pops ::
  "size_t list \<Rightarrow> 'a CircularBuffer_scheme
     \<Rightarrow> error + (bool \<times> byte list) list \<times> 'a CircularBuffer_scheme" where
  "pops [] s = Inr ([], s)"
| "pops (data_size # sizes) s =
     (case pop data_size s of
        Inl e \<Rightarrow> Inl e
      | Inr (ok, out, s1) \<Rightarrow>
          (case pops sizes s1 of
             Inl e \<Rightarrow> Inl e
           | Inr (rs, s2) \<Rightarrow> Inr ((ok, out) # rs, s2)))"

text \<open>A sequence of \<open>pushMsg\<close> and \<open>popMsg\<close> calls, run in order on a queue.\<close>

datatype msg_op = PushMsg "byte list option" size_t | PopMsg size_t

fun runMsgs ::
  "'w::len itself \<Rightarrow> msg_op list \<Rightarrow> 'a CircularBufferMsgs_scheme
     \<Rightarrow> error + 'a CircularBufferMsgs_scheme" where
  "runMsgs W [] s = Inr s"
| "runMsgs W (PushMsg data data_size # ops) s =
     (case pushMsg W data data_size s of Inl e \<Rightarrow> Inl e | Inr (ok, s') \<Rightarrow> runMsgs W ops s')"
| "runMsgs W (PopMsg max_data_size # ops) s =
     (case popMsg W max_data_size s of Inl e \<Rightarrow> Inl e | Inr (r, out, s') \<Rightarrow> runMsgs W ops s')"

text \<open>
  A sequence of \<open>popMsg\<close> calls with the given receive-buffer sizes; each call
  contributes the value it returned and the bytes it wrote.
\<close>

fun popMsgs ::
  "'w::len itself \<Rightarrow> size_t list \<Rightarrow> 'a CircularBufferMsgs_scheme
     \<Rightarrow> error + (size_t \<times> byte list) list \<times> 'a CircularBufferMsgs_scheme" where
  "popMsgs W [] s = Inr ([], s)"
| "popMsgs W (max_data_size # sizes) s =
     (case popMsg W max_data_size s of
        Inl e \<Rightarrow> Inl e
      | Inr (r, out, s1) \<Rightarrow>
          (case popMsgs W sizes s1 of
             Inl e \<Rightarrow> Inl e
           | Inr (rs, s2) \<Rightarrow> Inr ((r, out) # rs, s2)))"

subsection \<open>Example objects\<close>

text \<open>Fresh storage that happens to hold zeros.\<close>

definition zero_filled :: "nat \<Rightarrow> byte" where
  "zero_filled i = 0"

text \<open>
  A ring of 4 bytes after \<open>create\<close>, after a push of 1, 2 and after a further push of
  3, 4.
\<close>

definition ring4_created :: CircularBuffer where
  "ring4_created =
     \<lparr>buffer = Live [0, 0, 0, 0], allocated_size = 4, head = 0, tail = 0, free_space = 4\<rparr>"

definition ring4_half :: CircularBuffer where
  "ring4_half =
     \<lparr>buffer = Live [1, 2, 0, 0], allocated_size = 4, head = 2, tail = 0, free_space = 2\<rparr>"

definition ring4_full :: CircularBuffer where
  "ring4_full =
     \<lparr>buffer = Live [1, 2, 3, 4], allocated_size = 4, head = 4, tail = 0, free_space = 0\<rparr>"

text \<open>A queue of 6 bytes holding one record: the marker 2 and the payload 7, 8.\<close>

definition msgs6_one :: CircularBufferMsgs where
  "msgs6_one =
     \<lparr>buffer = Live [2, 0, 7, 8, 0, 0], allocated_size = 6, head = 4, tail = 0,
      free_space = 2, nmsgs = 1\<rparr>"

text \<open>
  A queue of 8 bytes after \<open>create\<close>, holding the record of the payload 7, 8, and after
  that record has been popped.
\<close>

definition msgs8_created :: CircularBufferMsgs where
  "msgs8_created =
     \<lparr>buffer = Live [0, 0, 0, 0, 0, 0, 0, 0], allocated_size = 8, head = 0, tail = 0,
      free_space = 8, nmsgs = 0\<rparr>"

definition msgs8_one :: CircularBufferMsgs where
  "msgs8_one =
     \<lparr>buffer = Live [2, 0, 7, 8, 0, 0, 0, 0], allocated_size = 8, head = 4, tail = 0,
      free_space = 4, nmsgs = 1\<rparr>"

definition msgs8_drained :: CircularBufferMsgs where
  "msgs8_drained =
     \<lparr>buffer = Live [2, 0, 7, 8, 0, 0, 0, 0], allocated_size = 8, head = 0, tail = 0,
      free_space = 8, nmsgs = 0\<rparr>"

text \<open>A queue of 70000 bytes after \<open>create\<close>.\<close>

definition msgs70000_created :: CircularBufferMsgs where
  "msgs70000_created =
     \<lparr>buffer = Live (replicate 70000 0), allocated_size = 70000, head = 0, tail = 0,
      free_space = 70000, nmsgs = 0\<rparr>"

section \<open>Auxiliary facts\<close>

subsection \<open>Offsets modulo the capacity\<close>

text \<open>
  The residues that occur are of numbers up to twice the capacity, so each is a case
  distinction between linear terms.
\<close>

lemma mod_lt2: "0 < c \<Longrightarrow> (x::nat) < 2 * c \<Longrightarrow> (x < c \<and> x mod c = x) \<or> (c \<le> x \<and> x mod c = x - c)"
  by (auto simp: mod_if le_mod_geq)

lemma mod_le2: "0 < c \<Longrightarrow> (x::nat) \<le> 2 * c \<Longrightarrow>
   (x < c \<and> x mod c = x) \<or> (c \<le> x \<and> x < 2 * c \<and> x mod c = x - c) \<or> (x = 2 * c \<and> x mod c = 0)"
  by (auto simp: mod_if le_mod_geq)

lemma mod_le1: "0 < c \<Longrightarrow> (x::nat) \<le> c \<Longrightarrow> (x < c \<and> x mod c = x) \<or> (x = c \<and> x mod c = 0)"
  by (auto simp: mod_if)

lemma ring_facts:
  fixes cap h t u i p :: nat
  assumes "0 < cap" "h \<le> cap" "t \<le> cap" "u \<le> cap" "i < cap"
    "(t + u) mod cap = h mod cap" "p = (t + i) mod cap"
  shows "\<exists>q.
    ((t + i < cap \<and> p = t + i) \<or> (cap \<le> t + i \<and> p = t + i - cap)) \<and>
    ((t + u < cap \<and> q = t + u) \<or> (cap \<le> t + u \<and> t + u < 2 * cap \<and> q = t + u - cap) \<or> (t + u = 2 * cap \<and> q = 0)) \<and>
    ((h < cap \<and> q = h) \<or> (h = cap \<and> q = 0))"
proof -
  have a: "t + i < 2 * cap" using assms(3,5) by linarith
  have b: "t + u \<le> 2 * cap" using assms(3,4) by linarith
  show ?thesis
    apply (rule exI[of _ "h mod cap"])
    using mod_lt2[OF assms(1) a] mod_le2[OF assms(1) b] mod_le1[OF assms(1,2)] assms(6,7)
    by simp
qed

lemma ring_old_A:
  fixes cap h t u i n :: nat
  assumes "0 < cap" "h \<le> cap" "t \<le> cap" "u + n \<le> cap"
    "(t + u) mod cap = h mod cap" "n \<le> cap - h" "i < u"
  shows "\<not> (h \<le> (t + i) mod cap \<and> (t + i) mod cap < h + n)"
proof -
  define p where "p = (t + i) mod cap"
  have b: "u \<le> cap" "i < cap" using assms(4,7) by linarith+
  obtain q where
    "(t + i < cap \<and> p = t + i) \<or> (cap \<le> t + i \<and> p = t + i - cap)"
    "(t + u < cap \<and> q = t + u) \<or> (cap \<le> t + u \<and> t + u < 2 * cap \<and> q = t + u - cap) \<or> (t + u = 2 * cap \<and> q = 0)"
    "(h < cap \<and> q = h) \<or> (h = cap \<and> q = 0)"
    using ring_facts[OF assms(1-3) b assms(5) p_def] by blast
  then have "\<not> (h \<le> p \<and> p < h + n)"
    using assms(1-4,6,7) by linarith
  then show ?thesis unfolding p_def .
qed

lemma ring_new_A:
  fixes cap h t u i n :: nat
  assumes "0 < cap" "h \<le> cap" "t \<le> cap" "u + n \<le> cap"
    "(t + u) mod cap = h mod cap" "n \<le> cap - h" "u \<le> i" "i < u + n"
  shows "(t + i) mod cap = h + (i - u)"
proof -
  define p where "p = (t + i) mod cap"
  have b: "u \<le> cap" "i < cap" using assms(4,8) by linarith+
  obtain q where
    "(t + i < cap \<and> p = t + i) \<or> (cap \<le> t + i \<and> p = t + i - cap)"
    "(t + u < cap \<and> q = t + u) \<or> (cap \<le> t + u \<and> t + u < 2 * cap \<and> q = t + u - cap) \<or> (t + u = 2 * cap \<and> q = 0)"
    "(h < cap \<and> q = h) \<or> (h = cap \<and> q = 0)"
    using ring_facts[OF assms(1-3) b assms(5) p_def] by blast
  then have "p = h + (i - u)"
    using assms(1-4,6-8) by linarith
  then show ?thesis unfolding p_def .
qed

lemma ring_old_B:
  fixes cap h t u i n :: nat
  assumes "0 < cap" "h \<le> cap" "t \<le> cap" "u + n \<le> cap"
    "(t + u) mod cap = h mod cap" "cap - h < n" "i < u"
  shows "\<not> h \<le> (t + i) mod cap \<and> \<not> (t + i) mod cap < n - (cap - h)"
proof -
  define p where "p = (t + i) mod cap"
  have b: "u \<le> cap" "i < cap" using assms(4,7) by linarith+
  obtain q where
    "(t + i < cap \<and> p = t + i) \<or> (cap \<le> t + i \<and> p = t + i - cap)"
    "(t + u < cap \<and> q = t + u) \<or> (cap \<le> t + u \<and> t + u < 2 * cap \<and> q = t + u - cap) \<or> (t + u = 2 * cap \<and> q = 0)"
    "(h < cap \<and> q = h) \<or> (h = cap \<and> q = 0)"
    using ring_facts[OF assms(1-3) b assms(5) p_def] by blast
  then have "\<not> h \<le> p \<and> \<not> p < n - (cap - h)"
    using assms(1-4,6,7) by linarith
  then show ?thesis unfolding p_def .
qed

lemma ring_new_B:
  fixes cap h t u i n :: nat
  assumes "0 < cap" "h \<le> cap" "t \<le> cap" "u + n \<le> cap"
    "(t + u) mod cap = h mod cap" "cap - h < n" "u \<le> i" "i < u + n"
  shows "(t + i) mod cap = (if i - u < cap - h then h + (i - u) else i - u - (cap - h))"
proof -
  define p where "p = (t + i) mod cap"
  have b: "u \<le> cap" "i < cap" using assms(4,8) by linarith+
  obtain q where
    "(t + i < cap \<and> p = t + i) \<or> (cap \<le> t + i \<and> p = t + i - cap)"
    "(t + u < cap \<and> q = t + u) \<or> (cap \<le> t + u \<and> t + u < 2 * cap \<and> q = t + u - cap) \<or> (t + u = 2 * cap \<and> q = 0)"
    "(h < cap \<and> q = h) \<or> (h = cap \<and> q = 0)"
    using ring_facts[OF assms(1-3) b assms(5) p_def] by blast
  then have "(i - u < cap - h \<longrightarrow> p = h + (i - u)) \<and> (\<not> i - u < cap - h \<longrightarrow> p = i - u - (cap - h))"
    using assms(1-4,6-8) by linarith
  then show ?thesis unfolding p_def by simp
qed

lemma ring_rel:
  fixes cap h t u n :: nat
  assumes "(t + u) mod cap = h mod cap"
  shows "(t + (u + n)) mod cap = (h + n) mod cap"
  using assms by (metis add.assoc mod_add_left_eq)

lemma ring_rel_B:
  fixes cap h t u n :: nat
  assumes "h \<le> cap" "(t + u) mod cap = h mod cap" "cap - h < n"
  shows "(t + (u + n)) mod cap = (n - (cap - h)) mod cap"
proof -
  have "(t + (u + n)) mod cap = (h + n) mod cap"
    using assms(2) by (rule ring_rel)
  also have "h + n = (n - (cap - h)) + cap" using assms(1,3) by simp
  finally show ?thesis by simp
qed

subsection \<open>Copies and wrapped reads\<close>

text \<open>
  The storage after the one or two copies of \<open>push\<close>, and the bytes that the one or two
  copies of \<open>pop\<close> read.
\<close>

lemma nth_splice:
  "off + length bs \<le> length buf \<Longrightarrow> j < length buf \<Longrightarrow>
   (take off buf @ bs @ drop (off + length bs) buf) ! j =
     (if off \<le> j \<and> j < off + length bs then bs ! (j - off) else buf ! j)"
  by (auto simp: nth_append min_def)

lemma ring_append_A:
  fixes buf :: "'a list"
  assumes "0 < cap" "h \<le> cap" "t \<le> cap" "u + n \<le> cap"
    "(t + u) mod cap = h mod cap" "n \<le> cap - h" "n \<le> length d"
    and nb: "\<And>j. j < cap \<Longrightarrow> buf' ! j = (if h \<le> j \<and> j < h + n then d ! (j - h) else buf ! j)"
  shows "map (\<lambda>i. buf' ! ((t + i) mod cap)) [0..<u + n]
       = map (\<lambda>i. buf ! ((t + i) mod cap)) [0..<u] @ take n d"
proof (rule nth_equalityI)
  show "length (map (\<lambda>i. buf' ! ((t + i) mod cap)) [0..<u + n]) =
    length (map (\<lambda>i. buf ! ((t + i) mod cap)) [0..<u] @ take n d)"
    using assms(7) by simp
next
  fix i assume "i < length (map (\<lambda>i. buf' ! ((t + i) mod cap)) [0..<u + n])"
  then have i: "i < u + n" by simp
  have lt: "(t + i) mod cap < cap" using assms(1) by simp
  have L: "map (\<lambda>i. buf' ! ((t + i) mod cap)) [0..<u + n] ! i = buf' ! ((t + i) mod cap)"
    using i by simp
  show "map (\<lambda>i. buf' ! ((t + i) mod cap)) [0..<u + n] ! i =
         (map (\<lambda>i. buf ! ((t + i) mod cap)) [0..<u] @ take n d) ! i"
  proof (cases "i < u")
    case True
    have "\<not> (h \<le> (t + i) mod cap \<and> (t + i) mod cap < h + n)"
      using ring_old_A[OF assms(1-6) True] .
    then have "buf' ! ((t + i) mod cap) = buf ! ((t + i) mod cap)"
      using nb[OF lt] by auto
    moreover have "(map (\<lambda>i. buf ! ((t + i) mod cap)) [0..<u] @ take n d) ! i = buf ! ((t + i) mod cap)"
      using True by (simp add: nth_append)
    ultimately show ?thesis using L by simp
  next
    case False
    then have ui: "u \<le> i" by simp
    have p: "(t + i) mod cap = h + (i - u)"
      using ring_new_A[OF assms(1-6) ui i] .
    have iu: "i - u < n" using i ui by linarith
    have "buf' ! (h + (i - u)) = d ! (i - u)"
      using nb[of "h + (i - u)"] lt iu unfolding p by simp
    moreover have "(map (\<lambda>i. buf ! ((t + i) mod cap)) [0..<u] @ take n d) ! i = d ! (i - u)"
      using False iu by (simp add: nth_append)
    ultimately show ?thesis using L p by simp
  qed
qed

lemma ring_append_B:
  fixes buf :: "'a list"
  assumes "0 < cap" "h \<le> cap" "t \<le> cap" "u + n \<le> cap"
    "(t + u) mod cap = h mod cap" "cap - h < n" "n \<le> length d"
    and nb: "\<And>j. j < cap \<Longrightarrow> buf' ! j =
        (if j < n - (cap - h) then d ! (cap - h + j) else if h \<le> j then d ! (j - h) else buf ! j)"
  shows "map (\<lambda>i. buf' ! ((t + i) mod cap)) [0..<u + n]
       = map (\<lambda>i. buf ! ((t + i) mod cap)) [0..<u] @ take n d"
proof (rule nth_equalityI)
  show "length (map (\<lambda>i. buf' ! ((t + i) mod cap)) [0..<u + n]) =
    length (map (\<lambda>i. buf ! ((t + i) mod cap)) [0..<u] @ take n d)"
    using assms(7) by simp
next
  fix i assume "i < length (map (\<lambda>i. buf' ! ((t + i) mod cap)) [0..<u + n])"
  then have i: "i < u + n" by simp
  have lt: "(t + i) mod cap < cap" using assms(1) by simp
  have L: "map (\<lambda>i. buf' ! ((t + i) mod cap)) [0..<u + n] ! i = buf' ! ((t + i) mod cap)"
    using i by simp
  show "map (\<lambda>i. buf' ! ((t + i) mod cap)) [0..<u + n] ! i =
         (map (\<lambda>i. buf ! ((t + i) mod cap)) [0..<u] @ take n d) ! i"
  proof (cases "i < u")
    case True
    have "\<not> h \<le> (t + i) mod cap \<and> \<not> (t + i) mod cap < n - (cap - h)"
      using ring_old_B[OF assms(1-6) True] .
    then have "buf' ! ((t + i) mod cap) = buf ! ((t + i) mod cap)"
      using nb[OF lt] by simp
    moreover have "(map (\<lambda>i. buf ! ((t + i) mod cap)) [0..<u] @ take n d) ! i = buf ! ((t + i) mod cap)"
      using True by (simp add: nth_append)
    ultimately show ?thesis using L by simp
  next
    case False
    then have ui: "u \<le> i" by simp
    have p: "(t + i) mod cap = (if i - u < cap - h then h + (i - u) else i - u - (cap - h))"
      using ring_new_B[OF assms(1-6) ui i] .
    have iu: "i - u < n" using i ui by linarith
    have R: "(map (\<lambda>i. buf ! ((t + i) mod cap)) [0..<u] @ take n d) ! i = d ! (i - u)"
      using False iu by (simp add: nth_append)
    show ?thesis
    proof (cases "i - u < cap - h")
      case True
      then have p': "(t + i) mod cap = h + (i - u)" using p by simp
      have "\<not> h + (i - u) < n - (cap - h)" using True assms(2,4) by linarith
      then have "buf' ! (h + (i - u)) = d ! (i - u)"
        using nb[of "h + (i - u)"] lt unfolding p' by simp
      then show ?thesis using L R p' by simp
    next
      case F: False
      then have p': "(t + i) mod cap = i - u - (cap - h)" using p by simp
      have a: "i - u - (cap - h) < n - (cap - h)" using F iu by linarith
      have b: "cap - h + (i - u - (cap - h)) = i - u" using F by linarith
      have "buf' ! (i - u - (cap - h)) = d ! (i - u)"
        using nb[of "i - u - (cap - h)"] lt a b unfolding p' by simp
      then show ?thesis using L R p' by simp
    qed
  qed
qed

lemma splice_nth_A:
  assumes "h + n \<le> length buf" "n \<le> length d" "j < length buf"
  shows "(take h buf @ take n (drop 0 d) @ drop (h + n) buf) ! j
       = (if h \<le> j \<and> j < h + n then d ! (j - h) else buf ! j)"
proof -
  have len: "length (take n d) = n" using assms(2) by simp
  have "(take h buf @ take n d @ drop (h + length (take n d)) buf) ! j
      = (if h \<le> j \<and> j < h + length (take n d) then take n d ! (j - h) else buf ! j)"
    by (rule nth_splice) (use assms len in simp_all)
  then show ?thesis unfolding len by auto
qed

lemma splice_nth_B:
  assumes "h \<le> length buf" "length buf - h < n" "n \<le> length d" "n \<le> length buf" "j < length buf"
  defines "w \<equiv> length buf - h"
  defines "b1 \<equiv> take h buf @ take w (drop 0 d) @ drop (h + w) buf"
  shows "(take 0 b1 @ take (n - w) (drop w d) @ drop (0 + (n - w)) b1) ! j
       = (if j < n - w then d ! (w + j) else if h \<le> j then d ! (j - h) else buf ! j)"
proof -
  have lb1: "length b1 = length buf" unfolding b1_def w_def using assms(1,2,3) by simp
  have hw: "h + w \<le> length buf" "w \<le> length d" unfolding w_def using assms(1-3) by linarith+
  have n1: "b1 ! j = (if h \<le> j \<and> j < h + w then d ! (j - h) else buf ! j)"
    unfolding b1_def by (rule splice_nth_A[OF hw assms(5)])
  have len: "length (take (n - w) (drop w d)) = n - w" using assms(3) by simp
  have "(take 0 b1 @ take (n - w) (drop w d) @ drop (0 + length (take (n - w) (drop w d))) b1) ! j
      = (if 0 \<le> j \<and> j < 0 + length (take (n - w) (drop w d)) then take (n - w) (drop w d) ! (j - 0) else b1 ! j)"
    by (rule nth_splice) (use assms lb1 len in simp_all)
  then have "(take 0 b1 @ take (n - w) (drop w d) @ drop (0 + (n - w)) b1) ! j
      = (if j < n - w then take (n - w) (drop w d) ! j else b1 ! j)"
    unfolding len by simp
  moreover have "j < n - w \<Longrightarrow> take (n - w) (drop w d) ! j = d ! (w + j)"
    using assms(3) by simp
  moreover have "\<not> j < n - w \<Longrightarrow> b1 ! j = (if h \<le> j then d ! (j - h) else buf ! j)"
    using n1 assms(5) unfolding w_def by auto
  ultimately show ?thesis by simp
qed

lemma ring_take_A:
  fixes buf :: "'a list"
  assumes "length buf = cap" "k \<le> cap - t" "k \<le> u"
  shows "take k (drop t buf) = take k (map (\<lambda>i. buf ! ((t + i) mod cap)) [0..<u])"
proof (rule nth_equalityI)
  show "length (take k (drop t buf)) = length (take k (map (\<lambda>i. buf ! ((t + i) mod cap)) [0..<u]))"
    using assms by simp
next
  fix i assume "i < length (take k (drop t buf))"
  then have i: "i < k" by simp
  then have "t + i < cap" using assms(2) by linarith
  then show "take k (drop t buf) ! i = take k (map (\<lambda>i. buf ! ((t + i) mod cap)) [0..<u]) ! i"
    using i assms by simp
qed

lemma ring_take_B:
  fixes buf :: "'a list"
  assumes "length buf = cap" "t \<le> cap" "cap - t < k" "k \<le> u" "u \<le> cap"
  shows "take (cap - t) (drop t buf) @ take (k - (cap - t)) (drop 0 buf)
       = take k (map (\<lambda>i. buf ! ((t + i) mod cap)) [0..<u])"
proof (rule nth_equalityI)
  show "length (take (cap - t) (drop t buf) @ take (k - (cap - t)) (drop 0 buf))
      = length (take k (map (\<lambda>i. buf ! ((t + i) mod cap)) [0..<u]))"
    using assms by simp
next
  fix i assume "i < length (take (cap - t) (drop t buf) @ take (k - (cap - t)) (drop 0 buf))"
  then have i: "i < k" using assms by simp
  have cap: "0 < cap" using assms(3,4,5) by linarith
  have l1: "length (take (cap - t) (drop t buf)) = cap - t" using assms(1) by simp
  have R: "take k (map (\<lambda>i. buf ! ((t + i) mod cap)) [0..<u]) ! i = buf ! ((t + i) mod cap)"
    using i assms(4) by simp
  have lt: "t + i < 2 * cap" using i assms(2,4,5) by linarith
  show "(take (cap - t) (drop t buf) @ take (k - (cap - t)) (drop 0 buf)) ! i
      = take k (map (\<lambda>i. buf ! ((t + i) mod cap)) [0..<u]) ! i"
  proof (cases "i < cap - t")
    case True
    then have "t + i < cap" by linarith
    then have "(t + i) mod cap = t + i" by simp
    moreover have "(take (cap - t) (drop t buf) @ take (k - (cap - t)) (drop 0 buf)) ! i = buf ! (t + i)"
      using True assms(1) by (simp add: nth_append)
    ultimately show ?thesis using R by simp
  next
    case False
    then have ge: "cap \<le> t + i" by linarith
    have "(t + i) mod cap = t + i - cap"
      using mod_lt2[OF cap lt] ge by linarith
    moreover have "t + i - cap = i - (cap - t)" using ge assms(2) by linarith
    moreover have "(take (cap - t) (drop t buf) @ take (k - (cap - t)) (drop 0 buf)) ! i = buf ! (i - (cap - t))"
      using False i assms(1) l1 by (simp add: nth_append)
    ultimately show ?thesis using R by simp
  qed
qed

lemma ring_drop:
  fixes buf :: "'a list"
  assumes "k \<le> u" and sh: "\<And>i. (t' + i) mod cap = (t + (k + i)) mod cap"
  shows "map (\<lambda>i. buf ! ((t' + i) mod cap)) [0..<u - k]
       = drop k (map (\<lambda>i. buf ! ((t + i) mod cap)) [0..<u])"
proof (rule nth_equalityI)
  show "length (map (\<lambda>i. buf ! ((t' + i) mod cap)) [0..<u - k])
      = length (drop k (map (\<lambda>i. buf ! ((t + i) mod cap)) [0..<u]))"
    by simp
next
  fix i assume "i < length (map (\<lambda>i. buf ! ((t' + i) mod cap)) [0..<u - k])"
  then have i: "i < u - k" by simp
  then have "k + i < u" by linarith
  then show "map (\<lambda>i. buf ! ((t' + i) mod cap)) [0..<u - k] ! i
      = drop k (map (\<lambda>i. buf ! ((t + i) mod cap)) [0..<u]) ! i"
    using i sh by simp
qed

subsection \<open>\<open>push\<close> and \<open>pop\<close> on well-formed states\<close>

text \<open>
  On a well-formed state \<open>push\<close> appends to the contents and \<open>pop\<close> takes from their
  front; both keep the state well formed, and so does every run from \<open>create\<close>.
\<close>

lemma wfD:
  assumes "well_formed s"
  obtains buf where "buffer s = Live buf" "length buf = unat (allocated_size s)"
    "unat (head s) \<le> unat (allocated_size s)" "unat (tail s) \<le> unat (allocated_size s)"
    "unat (free_space s) \<le> unat (allocated_size s)"
    "unat (bytesUsed s) = unat (allocated_size s) - unat (free_space s)"
    "(unat (tail s) + (unat (allocated_size s) - unat (free_space s))) mod unat (allocated_size s)
       = unat (head s) mod unat (allocated_size s)"
proof -
  from assms obtain buf where b: "buffer s = Live buf"
    by (auto simp: well_formed_def split: storage.splits)
  from assms b have f: "free_space s \<le> allocated_size s" by (simp add: well_formed_def)
  then have u: "unat (bytesUsed s) = unat (allocated_size s) - unat (free_space s)"
    by (simp add: bytesUsed_def unat_sub)
  from assms b have l: "length buf = unat (allocated_size s)" by (simp add: well_formed_def)
  from assms b have h: "unat (head s) \<le> unat (allocated_size s)"
    by (simp add: well_formed_def word_le_nat_alt)
  from assms b have t: "unat (tail s) \<le> unat (allocated_size s)"
    by (simp add: well_formed_def word_le_nat_alt)
  from f have f': "unat (free_space s) \<le> unat (allocated_size s)"
    by (simp add: word_le_nat_alt)
  from assms b have r: "(unat (tail s) + unat (bytesUsed s)) mod unat (allocated_size s)
       = unat (head s) mod unat (allocated_size s)"
    by (simp add: well_formed_def)
  show thesis
    by (rule that[OF b l h t f' u r[unfolded u]])
qed

lemma wfI:
  assumes "buffer s = Live buf" "length buf = unat (allocated_size s)"
    "unat (head s) \<le> unat (allocated_size s)" "unat (tail s) \<le> unat (allocated_size s)"
    "unat (free_space s) \<le> unat (allocated_size s)"
    "(unat (tail s) + (unat (allocated_size s) - unat (free_space s))) mod unat (allocated_size s)
       = unat (head s) mod unat (allocated_size s)"
  shows "well_formed s"
proof -
  have f: "free_space s \<le> allocated_size s" using assms(5) by (simp add: word_le_nat_alt)
  then have u: "unat (bytesUsed s) = unat (allocated_size s) - unat (free_space s)"
    by (simp add: bytesUsed_def unat_sub)
  have r: "(unat (tail s) + unat (bytesUsed s)) mod unat (allocated_size s)
       = unat (head s) mod unat (allocated_size s)"
    unfolding u by (rule assms(6))
  show ?thesis using assms(1-4) f r by (simp add: well_formed_def word_le_nat_alt)
qed

lemma length_contents: "well_formed s \<Longrightarrow> length (contents s) = unat (bytesUsed s)"
  by (auto simp: well_formed_def contents_def split: storage.splits)

lemma push_spec:
  fixes s :: "'a CircularBuffer_scheme"
  assumes wf: "well_formed s" and le: "n \<le> free_space s" and pos: "0 < n"
    and lt: "n < allocated_size s" and len: "unat n \<le> length d"
  shows "\<exists>b h'. push (Some d) n s
            = Inr (True, s\<lparr>free_space := free_space s - n, buffer := b, head := h'\<rparr>) \<and>
          well_formed (s\<lparr>free_space := free_space s - n, buffer := b, head := h'\<rparr>) \<and>
          contents (s\<lparr>free_space := free_space s - n, buffer := b, head := h'\<rparr>)
            = contents s @ take (unat n) d"
proof -
  obtain buf where buf: "buffer s = Live buf" "length buf = unat (allocated_size s)"
    and hc: "unat (head s) \<le> unat (allocated_size s)"
    and tc: "unat (tail s) \<le> unat (allocated_size s)"
    and fc: "unat (free_space s) \<le> unat (allocated_size s)"
    and used: "unat (bytesUsed s) = unat (allocated_size s) - unat (free_space s)"
    and rel: "(unat (tail s) + (unat (allocated_size s) - unat (free_space s))) mod unat (allocated_size s)
       = unat (head s) mod unat (allocated_size s)"
    using wfD[OF wf] by blast
  define cap where "cap = unat (allocated_size s)"
  define h where "h = unat (head s)"
  define t where "t = unat (tail s)"
  define f where "f = unat (free_space s)"
  define k where "k = unat n"
  note defs = cap_def h_def t_def f_def k_def
  have kf: "k \<le> f" using le by (simp add: defs word_le_nat_alt)
  have k0: "0 < k" using pos by (simp add: defs word_less_nat_alt)
  have kc: "k < cap" using lt by (simp add: defs word_less_nat_alt)
  have cap0: "0 < cap" using kc by linarith
  have f': "unat (free_space s - n) = f - k" using le by (simp add: defs unat_sub)
  have hle: "head s \<le> allocated_size s" using hc by (simp add: word_le_nat_alt)
  have w: "unat (allocated_size s - head s) = cap - h" using hle by (simp add: defs unat_sub)
  have g1: "\<not> free_space s < n" using le by simp
  have ukc: "(cap - f) + k \<le> cap" using kf fc by (simp add: defs)
  have rel': "(t + (cap - f)) mod cap = h mod cap" using rel by (simp add: defs)
  have u': "cap - (f - k) = (cap - f) + k" using kf fc by (simp add: defs)
  show ?thesis
  proof (cases "n \<le> allocated_size s - head s")
    case True
    then have A: "k \<le> cap - h" using w by (simp add: defs word_le_nat_alt)
    define b where "b = take h buf @ take k (drop 0 d) @ drop (h + k) buf"
    let ?s' = "s\<lparr>free_space := free_space s - n, buffer := Live b, head := head s + n\<rparr>"
    have hk: "h + k \<le> length buf" using A hc buf by (simp add: defs)
    have e: "push (Some d) n s = Inr (True, ?s')"
      using g1 pos lt True buf hk len
      by (simp add: push_def memcpy_in_def Let_def b_def defs)
    have "unat (head s) + unat n < 2 ^ LENGTH(64)"
      using hk buf unsigned_less[of "allocated_size s", where ?'a = nat] by (simp add: defs)
    then have hn: "unat (head s + n) = h + k" by (simp add: defs unat_add_lem[THEN iffD1])
    have lb: "length b = cap" using hk len buf by (simp add: b_def defs)
    have nb: "\<And>j. j < cap \<Longrightarrow> b ! j = (if h \<le> j \<and> j < h + k then d ! (j - h) else buf ! j)"
      unfolding b_def using splice_nth_A[OF hk] len buf by (simp add: defs)
    have w': "well_formed ?s'"
      by (rule wfI[where buf = b])
         (use lb hn f' A hc tc fc kf u' ring_rel[OF rel', of k] in \<open>simp_all add: defs\<close>)
    have c: "contents ?s' = contents s @ take (unat n) d"
      using ring_append_A[OF cap0 _ _ ukc rel' A _ nb] hc tc len fc kf used f' u' buf
      by (simp add: contents_def bytesUsed_def defs unat_sub word_le_nat_alt)
    show ?thesis using e w' c by blast
  next
    case False
    then have B: "cap - h < k" using w by (simp add: defs word_le_nat_alt)
    define m where "m = k - (cap - h)"
    define b1 where "b1 = take h buf @ take (cap - h) (drop 0 d) @ drop (h + (cap - h)) buf"
    define b where "b = take 0 b1 @ take m (drop (cap - h) d) @ drop (0 + m) b1"
    let ?s' = "s\<lparr>free_space := free_space s - n, buffer := Live b, head := n - (allocated_size s - head s)\<rparr>"
    have wn: "allocated_size s - head s \<le> n" using False by simp
    have m': "unat (n - (allocated_size s - head s)) = m"
      using wn w by (simp add: m_def defs unat_sub)
    have lb1: "length b1 = cap" using hc buf B len by (simp add: b1_def defs)
    have e: "push (Some d) n s = Inr (True, ?s')"
      using g1 pos lt False buf len hc B w m' lb1 kc
      by (simp add: push_def memcpy_in_def Let_def b_def b1_def defs m_def)
    have lb: "length b = cap" using lb1 B len kc by (simp add: b_def m_def defs)
    have nb: "\<And>j. j < cap \<Longrightarrow> b ! j =
        (if j < k - (cap - h) then d ! (cap - h + j) else if h \<le> j then d ! (j - h) else buf ! j)"
      using splice_nth_B[of h buf k d] hc B len kc buf
      by (simp add: b_def b1_def m_def defs)
    have mc: "m \<le> cap" using kc by (simp add: m_def)
    have w': "well_formed ?s'"
      by (rule wfI[where buf = b])
         (use lb m' mc f' hc tc fc kf u' ring_rel_B[OF _ rel' B] in \<open>simp_all add: defs m_def\<close>)
    have c: "contents ?s' = contents s @ take (unat n) d"
      using ring_append_B[OF cap0 _ _ ukc rel' B _ nb] hc tc len fc kf used f' u' buf
      by (simp add: contents_def bytesUsed_def defs unat_sub word_le_nat_alt)
    show ?thesis using e w' c by blast
  qed
qed

lemma pop_spec:
  fixes s :: "'a CircularBuffer_scheme"
  assumes wf: "well_formed s" and le: "n \<le> bytesUsed s"
  shows "\<exists>t'. pop n s
            = Inr (True, take (unat n) (contents s),
                   s\<lparr>tail := t', free_space := free_space s + n\<rparr>) \<and>
          well_formed (s\<lparr>tail := t', free_space := free_space s + n\<rparr>) \<and>
          contents (s\<lparr>tail := t', free_space := free_space s + n\<rparr>)
            = drop (unat n) (contents s)"
proof -
  obtain buf where buf: "buffer s = Live buf" "length buf = unat (allocated_size s)"
    and hc: "unat (head s) \<le> unat (allocated_size s)"
    and tc: "unat (tail s) \<le> unat (allocated_size s)"
    and fc: "unat (free_space s) \<le> unat (allocated_size s)"
    and used: "unat (bytesUsed s) = unat (allocated_size s) - unat (free_space s)"
    and rel: "(unat (tail s) + (unat (allocated_size s) - unat (free_space s))) mod unat (allocated_size s)
       = unat (head s) mod unat (allocated_size s)"
    using wfD[OF wf] by blast
  define cap where "cap = unat (allocated_size s)"
  define h where "h = unat (head s)"
  define t where "t = unat (tail s)"
  define f where "f = unat (free_space s)"
  define k where "k = unat n"
  define u where "u = cap - f"
  note defs = cap_def h_def t_def f_def k_def u_def
  have ku: "k \<le> u" using le used by (simp add: defs word_le_nat_alt)
  have uc: "u \<le> cap" by (simp add: u_def)
  have lb: "length buf = cap" using buf by (simp add: defs)
  have tcc: "t \<le> cap" using tc by (simp add: defs)
  have g1: "\<not> bytesUsed s < n" using le by simp
  have tle: "tail s \<le> allocated_size s" using tc by (simp add: word_le_nat_alt)
  have w: "unat (allocated_size s - tail s) = cap - t" using tle by (simp add: defs unat_sub)
  have "unat (free_space s) + unat n < 2 ^ LENGTH(64)"
    using ku fc unsigned_less[of "allocated_size s", where ?'a = nat] by (simp add: defs)
  then have fk: "unat (free_space s + n) = f + k" by (simp add: defs unat_add_lem[THEN iffD1])
  have u': "cap - (f + k) = u - k" by (simp add: defs)
  have fkc: "f + k \<le> cap" using ku fc by (simp add: defs)
  have rel': "(t + u) mod cap = h mod cap" using rel by (simp add: defs)
  have cont: "contents s = map (\<lambda>i. buf ! ((t + i) mod cap)) [0..<u]"
    using buf used by (simp add: contents_def defs)
  show ?thesis
  proof (cases "n \<le> allocated_size s - tail s")
    case True
    then have A: "k \<le> cap - t" using w by (simp add: defs word_le_nat_alt)
    let ?s' = "s\<lparr>tail := tail s + n, free_space := free_space s + n\<rparr>"
    have tk: "t + k \<le> length buf" using A tc buf by (simp add: defs)
    have "unat (tail s) + unat n < 2 ^ LENGTH(64)"
      using tk buf unsigned_less[of "allocated_size s", where ?'a = nat] by (simp add: defs)
    then have tn: "unat (tail s + n) = t + k" by (simp add: defs unat_add_lem[THEN iffD1])
    have o: "take k (drop t buf) = take k (contents s)"
      unfolding cont by (rule ring_take_A[OF lb A ku])
    have e: "pop n s = Inr (True, take (unat n) (contents s), ?s')"
      using g1 True buf tk o
      by (simp add: pop_def memcpy_out_def Let_def defs)
    have r: "(t + k + (u - k)) mod cap = h mod cap" using rel' ku by simp
    have w': "well_formed ?s'"
      by (rule wfI[where buf = buf])
         (use buf tn fk A hc tc fkc u' r in \<open>simp_all add: defs\<close>)
    have c: "contents ?s' = drop (unat n) (contents s)"
      unfolding cont
      using ring_drop[OF ku, of "t + k" cap t buf] buf tn fk u' fkc
      by (simp add: contents_def bytesUsed_def defs unat_sub word_le_nat_alt add.assoc)
    show ?thesis using e w' c by blast
  next
    case False
    then have B: "cap - t < k" using w by (simp add: defs word_le_nat_alt)
    define m where "m = k - (cap - t)"
    let ?s' = "s\<lparr>tail := n - (allocated_size s - tail s), free_space := free_space s + n\<rparr>"
    have wn: "allocated_size s - tail s \<le> n" using False by simp
    have m': "unat (n - (allocated_size s - tail s)) = m"
      using wn w by (simp add: m_def defs unat_sub)
    have mc: "m \<le> cap" using ku uc by (simp add: m_def)
    have o: "take (cap - t) (drop t buf) @ take m (drop 0 buf) = take k (contents s)"
      unfolding cont m_def by (rule ring_take_B[OF lb tcc B ku uc])
    have e: "pop n s = Inr (True, take (unat n) (contents s), ?s')"
      using g1 False buf o w m' mc tc
      by (simp add: pop_def memcpy_out_def Let_def defs)
    have tm: "t + u = m + (u - k) + cap" using B ku tc by (simp add: m_def defs)
    have r: "(m + (u - k)) mod cap = h mod cap" using rel' unfolding tm by simp
    have sh: "\<And>i. (m + i) mod cap = (t + (k + i)) mod cap"
    proof -
      fix i
      have "t + (k + i) = m + i + cap" using B tcc unfolding m_def by linarith
      then have "(t + (k + i)) mod cap = (m + i + cap) mod cap" by (rule arg_cong)
      then show "(m + i) mod cap = (t + (k + i)) mod cap" by simp
    qed
    have w': "well_formed ?s'"
      by (rule wfI[where buf = buf])
         (use buf m' mc fk hc tc fkc u' r in \<open>simp_all add: defs\<close>)
    have c: "contents ?s' = drop (unat n) (contents s)"
      unfolding cont
      using ring_drop[OF ku sh, of buf] buf m' fk u' fkc
      by (simp add: contents_def bytesUsed_def defs unat_sub word_le_nat_alt)
    show ?thesis using e w' c by blast
  qed
qed

lemma create_wf:
  assumes "create new_size fresh s = Inr s'"
  shows "well_formed s'"
proof -
  from assms have s': "s' = s\<lparr>buffer := Live (map fresh [0..<unat new_size]),
        allocated_size := new_size, free_space := new_size, head := 0, tail := 0\<rparr>"
    by (simp add: create_def split: if_splits)
  show ?thesis unfolding s' by (simp add: well_formed_def bytesUsed_def)
qed

lemma push_short:
  fixes s :: "'a CircularBuffer_scheme"
  assumes wf: "well_formed s" and short: "length d < unat n"
  shows "push (Some d) n s \<noteq> Inr (True, s')"
proof
  assume a: "push (Some d) n s = Inr (True, s')"
  obtain buf where buf: "buffer s = Live buf"
    and hc: "unat (head s) \<le> unat (allocated_size s)"
    using wfD[OF wf] by blast
  have hle: "head s \<le> allocated_size s" using hc by (simp add: word_le_nat_alt)
  have w: "unat (allocated_size s - head s) = unat (allocated_size s) - unat (head s)"
    using hle by (simp add: unat_sub)
  show False
  proof (cases "n \<le> allocated_size s - head s")
    case True
    then show False using a short buf
      by (simp add: push_def memcpy_in_def Let_def split: if_splits)
  next
    case False
    then have "allocated_size s - head s \<le> n" by simp
    then have "unat (n - (allocated_size s - head s)) = unat n - unat (allocated_size s - head s)"
      by (simp add: unat_sub)
    moreover have "unat (allocated_size s - head s) \<le> unat n"
      using False by (simp add: word_le_nat_alt)
    ultimately have "\<not> unat (allocated_size s - head s) + unat (n - (allocated_size s - head s)) \<le> length d"
      using short by linarith
    then show False using a False buf
      by (simp add: push_def memcpy_in_def Let_def split: if_splits sum.splits storage.splits)
  qed
qed

lemma push_success:
  fixes s :: "'a CircularBuffer_scheme"
  assumes wf: "well_formed s" and p: "push (Some d) n s = Inr (True, s')"
  shows "n \<le> free_space s" "0 < n" "n < allocated_size s" "unat n \<le> length d"
proof -
  from p show le: "n \<le> free_space s"
    by (cases "free_space s < n") (simp_all add: push_def)
  then have g: "\<not> free_space s < n" by simp
  from p g show "0 < n" "n < allocated_size s"
    by (auto simp: push_def split: if_splits)
  show "unat n \<le> length d"
    using push_short[OF wf, of d n s'] p by (cases "unat n \<le> length d") auto
qed

lemma push_wf:
  fixes s :: "'a CircularBuffer_scheme"
  assumes wf: "well_formed s" and p: "push data n s = Inr (ok, s')"
  shows "well_formed s'"
proof (cases "free_space s < n")
  case True
  then show ?thesis using p wf by (simp add: push_def)
next
  case False
  then have le: "n \<le> free_space s" by simp
  from p False obtain d where d: "data = Some d" and pos: "0 < n" and lt: "n < allocated_size s"
    by (cases data) (auto simp: push_def split: if_splits)
  from p False d pos lt have ok: "ok"
    by (auto simp: push_def Let_def split: if_splits sum.splits)
  have len: "unat n \<le> length d"
    using push_short[OF wf, of d n s'] p d ok by (cases "unat n \<le> length d") auto
  show ?thesis
    using push_spec[OF wf le pos lt len] p d by auto
qed

lemma pop_wf:
  fixes s :: "'a CircularBuffer_scheme"
  assumes wf: "well_formed s" and p: "pop n s = Inr (ok, out, s')"
  shows "well_formed s'"
proof (cases "bytesUsed s < n")
  case True
  then show ?thesis using p wf by (simp add: pop_def Let_def)
next
  case False
  then have le: "n \<le> bytesUsed s" by simp
  show ?thesis using pop_spec[OF wf le] p by auto
qed

lemma run_wf:
  "well_formed s \<Longrightarrow> run ops s = Inr s' \<Longrightarrow> well_formed s'"
proof (induction ops arbitrary: s)
  case Nil
  then show ?case by simp
next
  case (Cons op ops)
  show ?case
  proof (cases op)
    case (Push data n)
    with Cons.prems obtain ok s1 where "push data n s = Inr (ok, s1)" "run ops s1 = Inr s'"
      by (auto split: sum.splits)
    then show ?thesis using Cons.IH Cons.prems(1) push_wf by blast
  next
    case (Pop n)
    with Cons.prems obtain ok out s1 where "pop n s = Inr (ok, out, s1)" "run ops s1 = Inr s'"
      by (auto split: sum.splits)
    then show ?thesis using Cons.IH Cons.prems(1) pop_wf by blast
  qed
qed

lemma pop_changes:
  assumes "pop n s = Inr (ok, out, s')"
  shows "\<exists>t f. s' = s\<lparr>tail := t, free_space := f\<rparr>"
proof (cases "bytesUsed s < n")
  case True
  then have "s' = s" using assms by (simp add: pop_def Let_def)
  then have "s' = s\<lparr>tail := tail s, free_space := free_space s\<rparr>" by simp
  then show ?thesis by blast
next
  case False
  then show ?thesis using assms
    by (auto simp: pop_def Let_def split: if_splits sum.splits)
qed

lemma pops_changes:
  "pops ns s = Inr (rs, s') \<Longrightarrow> \<exists>t f. s' = s\<lparr>tail := t, free_space := f\<rparr>"
proof (induction ns arbitrary: s rs)
  case Nil
  then have "s' = s\<lparr>tail := tail s, free_space := free_space s\<rparr>" by simp
  then show ?case by blast
next
  case (Cons n ns)
  from Cons.prems obtain ok out s1 rs1 where
    p: "pop n s = Inr (ok, out, s1)" and q: "pops ns s1 = Inr (rs1, s')"
    by (auto split: sum.splits)
  from pop_changes[OF p] obtain t f where s1: "s1 = s\<lparr>tail := t, free_space := f\<rparr>" by blast
  from Cons.IH[OF q] obtain t' f' where "s' = s1\<lparr>tail := t', free_space := f'\<rparr>" by blast
  then have "s' = s\<lparr>tail := t', free_space := f'\<rparr>" using s1 by simp
  then show ?case by blast
qed

lemma pops_take:
  fixes s :: "'a CircularBuffer_scheme"
  shows "well_formed s \<Longrightarrow> sum_list (map unat sizes) \<le> length (contents s) \<Longrightarrow>
     \<exists>rs s'. pops sizes s = Inr (rs, s') \<and> list_all fst rs \<and>
        concat (map snd rs) = take (sum_list (map unat sizes)) (contents s) \<and>
        well_formed s' \<and> contents s' = drop (sum_list (map unat sizes)) (contents s)"
proof (induction sizes arbitrary: s)
  case Nil
  then show ?case by simp
next
  case (Cons n ns)
  have "unat n \<le> length (contents s)" using Cons.prems(2) by simp
  then have le: "n \<le> bytesUsed s"
    using length_contents[OF Cons.prems(1)] by (simp add: word_le_nat_alt)
  obtain t' where p: "pop n s = Inr (True, take (unat n) (contents s),
        s\<lparr>tail := t', free_space := free_space s + n\<rparr>)"
    and w1: "well_formed (s\<lparr>tail := t', free_space := free_space s + n\<rparr>)"
    and c1: "contents (s\<lparr>tail := t', free_space := free_space s + n\<rparr>) = drop (unat n) (contents s)"
    using pop_spec[OF Cons.prems(1) le] by blast
  define s1 where "s1 = s\<lparr>tail := t', free_space := free_space s + n\<rparr>"
  have "sum_list (map unat ns) \<le> length (contents s1)"
    using Cons.prems(2) c1 by (simp add: s1_def)
  then obtain rs s' where q: "pops ns s1 = Inr (rs, s')" and a: "list_all fst rs"
    and o: "concat (map snd rs) = take (sum_list (map unat ns)) (contents s1)"
    and w': "well_formed s'" and c': "contents s' = drop (sum_list (map unat ns)) (contents s1)"
    using Cons.IH[OF w1[folded s1_def]] by blast
  have e: "pops (n # ns) s = Inr ((True, take (unat n) (contents s)) # rs, s')"
    using p[folded s1_def] q by simp
  have o': "concat (map snd ((True, take (unat n) (contents s)) # rs))
      = take (sum_list (map unat (n # ns))) (contents s)"
    using o c1[folded s1_def] by (simp add: take_add)
  have c'': "contents s' = drop (sum_list (map unat (n # ns))) (contents s)"
    using c' c1[folded s1_def] by (simp add: add.commute)
  show ?case using e a o' w' c'' by auto
qed

lemma push_live:
  assumes "push data n s = Inr (ok, s')" "buffer s = Live b"
  shows "\<exists>b'. buffer s' = Live b'"
  using assms
  by (auto simp: push_def memcpy_in_def Let_def split: if_splits option.splits sum.splits)

lemma pop_live:
  assumes "pop n s = Inr (ok, out, s')" "buffer s = Live b"
  shows "\<exists>b'. buffer s' = Live b'"
  using pop_changes[OF assms(1)] assms(2) by auto

lemma run_live:
  "run ops s = Inr s' \<Longrightarrow> buffer s = Live b \<Longrightarrow> \<exists>b'. buffer s' = Live b'"
proof (induction ops arbitrary: s b)
  case Nil
  then show ?case by simp
next
  case (Cons op ops)
  show ?case
  proof (cases op)
    case (Push data n)
    with Cons.prems obtain ok s1 where p: "push data n s = Inr (ok, s1)" and r: "run ops s1 = Inr s'"
      by (auto split: sum.splits)
    from push_live[OF p Cons.prems(2)] obtain b1 where "buffer s1 = Live b1" by blast
    then show ?thesis using Cons.IH[OF r] by blast
  next
    case (Pop n)
    with Cons.prems obtain ok out s1 where p: "pop n s = Inr (ok, out, s1)" and r: "run ops s1 = Inr s'"
      by (auto split: sum.splits)
    from pop_live[OF p Cons.prems(2)] obtain b1 where "buffer s1 = Live b1" by blast
    then show ?thesis using Cons.IH[OF r] by blast
  qed
qed

lemma wf_empty_iff:
  assumes "well_formed s"
  shows "empty_buf s \<longleftrightarrow> contents s = []"
proof -
  have fc: "unat (free_space s) \<le> unat (allocated_size s)"
    and used: "unat (bytesUsed s) = unat (allocated_size s) - unat (free_space s)"
    by (rule wfD[OF assms], assumption)+
  have "contents s = [] \<longleftrightarrow> unat (bytesUsed s) = 0"
    using length_contents[OF assms] by (metis length_0_conv)
  also have "\<dots> \<longleftrightarrow> unat (free_space s) = unat (allocated_size s)"
    using fc used by linarith
  also have "\<dots> \<longleftrightarrow> empty_buf s"
    by (simp add: empty_buf_def word_unat_eq_iff)
  finally show ?thesis by simp
qed

lemma wf_clear:
  assumes "well_formed s" "empty_buf s"
  shows "well_formed (clear s)" and "contents (clear s) = []"
proof -
  obtain buf where buf: "buffer s = Live buf" "length buf = unat (allocated_size s)"
    using wfD[OF assms(1)] by blast
  show "well_formed (clear s)"
    using assms(2) buf by (simp add: well_formed_def clear_def empty_buf_def bytesUsed_def)
  show "contents (clear s) = []"
    using assms(2) buf by (simp add: contents_def clear_def empty_buf_def bytesUsed_def)
qed

subsection \<open>The marker\<close>

text \<open>Decoding the bytes of a marker gives the marker back.\<close>

lemma unat_ucast_mod:
  "unat (ucast (w :: 'b::len word) :: 'c::len word) = unat w mod 2 ^ LENGTH('c)"
  by (simp add: unsigned_ucast_eq take_bit_eq_mod)

lemma length_le_bytes: "length (le_bytes k v) = k"
  by (induction k arbitrary: v) simp_all

lemma le_value_le_bytes: "le_value (le_bytes k v) = v mod 256 ^ k"
proof (induction k arbitrary: v)
  case 0
  then show ?case by simp
next
  case (Suc k)
  have "unat (of_nat (v mod 256) :: byte) = v mod 256"
    by (simp add: unat_of_nat)
  then show ?case
    using Suc[of "v div 256"] by (simp add: mod_mult2_eq)
qed

lemma marker_pow:
  assumes "marker_width_ok TYPE('w::len)"
  shows "(256::nat) ^ (LENGTH('w) div 8) = 2 ^ LENGTH('w)"
proof -
  from assms obtain q where q: "LENGTH('w) = 8 * q"
    by (auto simp: marker_width_ok_def dvd_def)
  have "(256::nat) ^ q = (2 ^ 8) ^ q" by simp
  also have "\<dots> = 2 ^ (8 * q)" by (simp only: power_mult)
  finally show ?thesis using q by simp
qed

lemma marker_roundtrip:
  fixes m :: "'w::len word"
  assumes "marker_width_ok TYPE('w)"
  shows "marker_of_bytes (marker_bytes m) = m"
proof -
  have "unat m < 2 ^ LENGTH('w)" by simp
  then have "unat m mod 256 ^ (LENGTH('w) div 8) = unat m"
    using marker_pow[OF assms] by simp
  then show ?thesis
    by (simp add: marker_of_bytes_def marker_bytes_def le_value_le_bytes)
qed

lemma length_marker_bytes: "length (marker_bytes (m :: 'w::len word)) = LENGTH('w) div 8"
  by (simp add: marker_bytes_def length_le_bytes)

lemma sizeof_unat:
  assumes "marker_width_ok TYPE('w::len)"
  shows "unat (sizeof_msg_size_t TYPE('w)) = LENGTH('w) div 8"
    and "0 < LENGTH('w) div 8"
proof -
  from assms have l: "LENGTH('w) \<le> 64" and d: "8 dvd LENGTH('w)"
    by (simp_all add: marker_width_ok_def)
  have "LENGTH('w) div 8 \<le> 8" using l by simp
  then have "LENGTH('w) div 8 < 2 ^ LENGTH(64)" by simp
  then show "unat (sizeof_msg_size_t TYPE('w)) = LENGTH('w) div 8"
    unfolding sizeof_msg_size_t_def by (simp add: unat_of_nat)
  from d obtain q where q: "LENGTH('w) = 8 * q" by (rule dvdE)
  have "0 < 8 * q" by (rule len_gt_0[where 'a = 'w, unfolded q])
  then show "0 < LENGTH('w) div 8" unfolding q by simp
qed

lemma unat_marker_up:
  fixes m :: "'w::len word"
  assumes "marker_width_ok TYPE('w)"
  shows "unat (ucast m :: size_t) = unat m"
proof -
  from assms have l: "LENGTH('w) \<le> LENGTH(64)" by (simp add: marker_width_ok_def)
  have "unat m < 2 ^ LENGTH('w)" by simp
  also have "(2::nat) ^ LENGTH('w) \<le> 2 ^ LENGTH(64)" using l by (intro power_increasing) simp_all
  finally show ?thesis by (simp add: unat_ucast_mod)
qed

lemma unat_marker_down:
  "unat (ucast (n :: size_t) :: 'w::len word) = unat n mod 2 ^ LENGTH('w)"
  by (simp add: unat_ucast_mod)

lemma marker16: "marker_width_ok TYPE(16)"
  by (simp add: marker_width_ok_def)

subsection \<open>\<open>pushMsg\<close> and \<open>popMsg\<close> on queues of records\<close>

text \<open>
  \<open>pushMsg\<close> appends a record; \<open>popMsg\<close> removes the oldest record, or leaves the queue
  as it is when the receive buffer is too small.
\<close>

lemma wf_nmsgs_update [simp]: "well_formed (s\<lparr>nmsgs := k\<rparr>) = well_formed s"
  by (simp add: well_formed_def bytesUsed_def split: storage.splits)

lemma contents_nmsgs_update [simp]: "contents (s\<lparr>nmsgs := k\<rparr>) = contents s"
  by (simp add: contents_def bytesUsed_def split: storage.splits)

lemma pushMsg_contents:
  fixes s :: "'a CircularBufferMsgs_scheme"
  assumes mw: "marker_width_ok TYPE('w::len)" and wf: "well_formed s"
    and len: "unat n \<le> length d" and pos: "0 < n"
    and room: "unat n + LENGTH('w) div 8 \<le> unat (free_space s)"
  shows "\<exists>s'. pushMsg TYPE('w) (Some d) n s = Inr (True, s') \<and> well_formed s' \<and>
           contents s' = contents s @ marker_bytes (ucast n :: 'w word) @ take (unat n) d \<and>
           nmsgs s' = nmsgs s + 1"
proof -
  define z where "z = sizeof_msg_size_t TYPE('w)"
  define mb where "mb = marker_bytes (ucast n :: 'w word)"
  have uz: "unat z = LENGTH('w) div 8" and z0: "0 < LENGTH('w) div 8"
    unfolding z_def using sizeof_unat[OF mw] by simp_all
  have fc: "unat (free_space s) \<le> unat (allocated_size s)"
    by (rule wfD[OF wf])
  have "unat n + unat z < 2 ^ LENGTH(64)"
    using room uz unsigned_less[of "free_space s", where ?'a = nat] by linarith
  then have unz: "unat (n + z) = unat n + unat z" by (simp add: unat_add_lem[THEN iffD1])
  have g: "\<not> free_space s < n + z" using room unz uz by (simp add: word_less_nat_alt)
  have zle: "z \<le> free_space s" using room uz by (simp add: word_le_nat_alt)
  have zpos: "0 < z" using z0 uz by (simp add: word_less_nat_alt)
  have k0: "0 < unat n" using pos by (simp add: word_less_nat_alt)
  have zlt: "z < allocated_size s" using room uz fc k0 by (simp add: word_less_nat_alt)
  have lmb: "unat z \<le> length mb" using uz by (simp add: mb_def length_marker_bytes)
  obtain b1 h1 where
    p1: "push (Some mb) z s = Inr (True, s\<lparr>free_space := free_space s - z, buffer := b1, head := h1\<rparr>)"
    and w1: "well_formed (s\<lparr>free_space := free_space s - z, buffer := b1, head := h1\<rparr>)"
    and c1: "contents (s\<lparr>free_space := free_space s - z, buffer := b1, head := h1\<rparr>)
               = contents s @ take (unat z) mb"
    using push_spec[OF wf zle zpos zlt lmb] by blast
  define s1 where "s1 = s\<lparr>free_space := free_space s - z, buffer := b1, head := h1\<rparr>"
  have fz: "unat (free_space s - z) = unat (free_space s) - unat z"
    using zle by (simp add: unat_sub)
  have nle: "n \<le> free_space s1" using room uz fz by (simp add: s1_def word_le_nat_alt)
  have nlt: "n < allocated_size s1" using room uz fc z0 by (simp add: s1_def word_less_nat_alt)
  obtain b2 h2 where
    p2: "push (Some d) n s1 = Inr (True, s1\<lparr>free_space := free_space s1 - n, buffer := b2, head := h2\<rparr>)"
    and w2: "well_formed (s1\<lparr>free_space := free_space s1 - n, buffer := b2, head := h2\<rparr>)"
    and c2: "contents (s1\<lparr>free_space := free_space s1 - n, buffer := b2, head := h2\<rparr>)
               = contents s1 @ take (unat n) d"
    using push_spec[OF w1[folded s1_def] nle pos nlt len] by blast
  define s2 where "s2 = s1\<lparr>free_space := free_space s1 - n, buffer := b2, head := h2\<rparr>"
  have tk: "take (unat z) mb = mb" using uz by (simp add: mb_def length_marker_bytes)
  have e: "pushMsg TYPE('w) (Some d) n s = Inr (True, s2\<lparr>nmsgs := nmsgs s2 + 1\<rparr>)"
    using g p1[folded s1_def] p2[folded s2_def]
    by (simp add: pushMsg_def Let_def z_def[symmetric] mb_def[symmetric])
  have n2: "nmsgs s2 = nmsgs s" by (simp add: s2_def s1_def)
  have c: "contents s2 = contents s @ mb @ take (unat n) d"
    using c2[folded s2_def] c1[folded s1_def] tk by simp
  show ?thesis
    using e w2[folded s2_def] c n2 by (simp add: mb_def)
qed

lemma pop_marker:
  fixes s :: "'a CircularBufferMsgs_scheme"
  assumes mw: "marker_width_ok TYPE('w::len)" and inv: "msgs_inv TYPE('w) s (m # ms)"
  shows "\<exists>t1. pop (sizeof_msg_size_t TYPE('w)) s
            = Inr (True, marker_bytes (of_nat (length m) :: 'w word),
                   s\<lparr>tail := t1, free_space := free_space s + sizeof_msg_size_t TYPE('w)\<rparr>) \<and>
          well_formed (s\<lparr>tail := t1, free_space := free_space s + sizeof_msg_size_t TYPE('w)\<rparr>) \<and>
          contents (s\<lparr>tail := t1, free_space := free_space s + sizeof_msg_size_t TYPE('w)\<rparr>)
            = m @ frames TYPE('w) ms"
    and "sizeof_msg_size_t TYPE('w) \<le> bytesUsed s"
proof -
  define z where "z = sizeof_msg_size_t TYPE('w)"
  define mb where "mb = marker_bytes (of_nat (length m) :: 'w word)"
  have uz: "unat z = LENGTH('w) div 8"
    unfolding z_def using sizeof_unat[OF mw] by simp
  from inv have wf: "well_formed s" and c: "contents s = mb @ m @ frames TYPE('w) ms"
    by (simp_all add: msgs_inv_def frames_def frame_def mb_def)
  have lmb: "length mb = unat z" using uz by (simp add: mb_def length_marker_bytes)
  have "unat z \<le> length (contents s)" using c lmb by simp
  then show zu: "sizeof_msg_size_t TYPE('w) \<le> bytesUsed s"
    using length_contents[OF wf] by (simp add: z_def word_le_nat_alt)
  obtain t1 where
    "pop z s = Inr (True, take (unat z) (contents s), s\<lparr>tail := t1, free_space := free_space s + z\<rparr>)"
    "well_formed (s\<lparr>tail := t1, free_space := free_space s + z\<rparr>)"
    "contents (s\<lparr>tail := t1, free_space := free_space s + z\<rparr>) = drop (unat z) (contents s)"
    using pop_spec[OF wf zu[folded z_def]] by blast
  then show "\<exists>t1. pop (sizeof_msg_size_t TYPE('w)) s
            = Inr (True, marker_bytes (of_nat (length m) :: 'w word),
                   s\<lparr>tail := t1, free_space := free_space s + sizeof_msg_size_t TYPE('w)\<rparr>) \<and>
          well_formed (s\<lparr>tail := t1, free_space := free_space s + sizeof_msg_size_t TYPE('w)\<rparr>) \<and>
          contents (s\<lparr>tail := t1, free_space := free_space s + sizeof_msg_size_t TYPE('w)\<rparr>)
            = m @ frames TYPE('w) ms"
    using c lmb unfolding z_def[symmetric] mb_def[symmetric] by auto
qed

lemma declared_length:
  assumes mw: "marker_width_ok TYPE('w::len)" and "length m < 2 ^ LENGTH('w)"
  shows "unat (ucast (marker_of_bytes (marker_bytes (of_nat (length m) :: 'w word)) :: 'w word) :: size_t)
           = length m"
  using assms by (simp add: marker_roundtrip unat_marker_up unat_of_nat)

lemma popMsg_too_small:
  fixes s :: "'a CircularBufferMsgs_scheme"
  assumes mw: "marker_width_ok TYPE('w::len)" and inv: "msgs_inv TYPE('w) s (m # ms)"
    and small: "unat max_data_size < length m"
  shows "popMsg TYPE('w) max_data_size s = Inr (0, [], s)"
proof -
  define z where "z = sizeof_msg_size_t TYPE('w)"
  from inv have lm: "length m < 2 ^ LENGTH('w)" by (simp add: msgs_inv_def)
  obtain t1 where p: "pop z s
     = Inr (True, marker_bytes (of_nat (length m) :: 'w word), s\<lparr>tail := t1, free_space := free_space s + z\<rparr>)"
    using pop_marker(1)[OF mw inv] unfolding z_def by blast
  have g: "\<not> bytesUsed s < z" using pop_marker(2)[OF mw inv] unfolding z_def by simp
  have big: "max_data_size
      < (ucast (marker_of_bytes (marker_bytes (of_nat (length m) :: 'w word)) :: 'w word) :: size_t)"
    using small declared_length[OF mw lm] by (simp add: word_less_nat_alt)
  show ?thesis
    using g p big
    by (simp add: popMsg_def Let_def z_def[symmetric] saveCheckPoint_def loadCheckPoint_def)
qed

lemma popMsg_front:
  fixes s :: "'a CircularBufferMsgs_scheme"
  assumes mw: "marker_width_ok TYPE('w::len)" and inv: "msgs_inv TYPE('w) s (m # ms)"
    and fits: "length m \<le> unat max_data_size"
  shows "\<exists>r s'. popMsg TYPE('w) max_data_size s = Inr (r, m, s') \<and> unat r = length m \<and>
            msgs_inv TYPE('w) s' ms"
proof -
  define z where "z = sizeof_msg_size_t TYPE('w)"
  define r where "r = (ucast (marker_of_bytes (marker_bytes (of_nat (length m) :: 'w word)) :: 'w word) :: size_t)"
  from inv have lm: "length m < 2 ^ LENGTH('w)" and lms: "list_all (\<lambda>m. length m < 2 ^ LENGTH('w)) ms"
    and nm: "unat (nmsgs s) = Suc (length ms)"
    by (simp_all add: msgs_inv_def)
  have ur: "unat r = length m" unfolding r_def by (rule declared_length[OF mw lm])
  obtain t1 where p: "pop z s
     = Inr (True, marker_bytes (of_nat (length m) :: 'w word), s\<lparr>tail := t1, free_space := free_space s + z\<rparr>)"
    and w1: "well_formed (s\<lparr>tail := t1, free_space := free_space s + z\<rparr>)"
    and c1: "contents (s\<lparr>tail := t1, free_space := free_space s + z\<rparr>) = m @ frames TYPE('w) ms"
    using pop_marker(1)[OF mw inv] unfolding z_def by blast
  define s1 where "s1 = s\<lparr>tail := t1, free_space := free_space s + z\<rparr>"
  have g: "\<not> bytesUsed s < z" using pop_marker(2)[OF mw inv] unfolding z_def by simp
  have ok: "\<not> max_data_size < r" using fits ur by (simp add: word_less_nat_alt)
  have "unat r \<le> length (contents s1)" using ur c1 by (simp add: s1_def)
  then have ru: "r \<le> bytesUsed s1"
    using length_contents[OF w1[folded s1_def]] by (simp add: word_le_nat_alt)
  obtain t2 where p2: "pop r s1
     = Inr (True, take (unat r) (contents s1), s1\<lparr>tail := t2, free_space := free_space s1 + r\<rparr>)"
    and w2: "well_formed (s1\<lparr>tail := t2, free_space := free_space s1 + r\<rparr>)"
    and c2: "contents (s1\<lparr>tail := t2, free_space := free_space s1 + r\<rparr>) = drop (unat r) (contents s1)"
    using pop_spec[OF w1[folded s1_def] ru] by blast
  define s2 where "s2 = s1\<lparr>tail := t2, free_space := free_space s1 + r\<rparr>"
  have out: "take (unat r) (contents s1) = m" using ur c1 by (simp add: s1_def)
  have c2': "contents s2 = frames TYPE('w) ms" using c2 ur c1 by (simp add: s2_def s1_def)
  have n2: "nmsgs s2 = nmsgs s" by (simp add: s2_def s1_def)
  have n0: "nmsgs s \<noteq> 0" using nm by (metis Zero_not_Suc unat_0)
  have n3: "unat (nmsgs s - 1) = length ms" using nm unat_minus_one[OF n0] by simp
  define s3 where "s3 = s2\<lparr>nmsgs := nmsgs s2 - 1\<rparr>"
  have w3: "well_formed s3" and c3: "contents s3 = frames TYPE('w) ms" and u3: "unat (nmsgs s3) = length ms"
    using w2 c2' n3 n2 by (simp_all add: s3_def s2_def)
  have e3: "empty_buf s3 \<longleftrightarrow> empty_buf s2" by (simp add: s3_def empty_buf_def)
  show ?thesis
  proof (cases "nmsgs s3 = 0")
    case True
    then have "length ms = 0" using u3 by simp
    then have ms: "ms = []" by simp
    then have "contents s3 = []" using c3 by (simp add: frames_def)
    then have emp: "empty_buf s3" using wf_empty_iff[OF w3] by simp
    have e: "popMsg TYPE('w) max_data_size s = Inr (r, m, clear s3)"
      using g p[folded s1_def] ok p2[folded s2_def] out True emp
      by (simp add: popMsg_def Let_def z_def[symmetric] r_def[symmetric] s3_def[symmetric])
    have "msgs_inv TYPE('w) (clear s3) ms"
      using wf_clear[OF w3 emp] ms True
      by (simp add: msgs_inv_def frames_def clear_def)
    then show ?thesis using e ur by blast
  next
    case False
    then have pos: "0 < nmsgs s3" by (simp add: word_gt_0)
    have "nmsgs s3 = nmsgs s2 - 1" by (simp add: s3_def)
    then have pos': "0 < nmsgs s2 - 1" using pos by simp
    have e: "popMsg TYPE('w) max_data_size s = Inr (r, m, s3)"
      using g p[folded s1_def] ok p2[folded s2_def] out False pos'
      by (simp add: popMsg_def Let_def z_def[symmetric] r_def[symmetric] s3_def[symmetric])
    have "msgs_inv TYPE('w) s3 ms"
      using w3 c3 u3 lms by (simp add: msgs_inv_def)
    then show ?thesis using e ur by blast
  qed
qed

lemma length_frames_ge:
  assumes "marker_width_ok TYPE('w::len)"
  shows "length ms \<le> length (frames TYPE('w) ms)"
proof (induction ms)
  case Nil
  then show ?case by (simp add: frames_def)
next
  case (Cons m ms)
  have "0 < LENGTH('w) div 8" using sizeof_unat(2)[OF assms] .
  then have "1 \<le> length (frame TYPE('w) m)"
    by (simp add: frame_def length_marker_bytes)
  then show ?case using Cons by (simp add: frames_def)
qed

lemma frames_append: "frames W (ms @ ms') = frames W ms @ frames W ms'"
  by (simp add: frames_def)

lemma msgs_invI:
  assumes "well_formed s" "contents s = frames TYPE('w::len) ms" "unat (nmsgs s) = length ms"
    "list_all (\<lambda>m. length m < 2 ^ LENGTH('w)) ms"
  shows "msgs_inv TYPE('w) s ms"
  using assms by (simp add: msgs_inv_def)

lemma create_msgs_inv:
  assumes "create new_size fresh new_CircularBufferMsgs = Inr s"
  shows "msgs_inv TYPE('w::len) s []"
proof -
  from assms have s: "s = new_CircularBufferMsgs\<lparr>buffer := Live (map fresh [0..<unat new_size]),
        allocated_size := new_size, free_space := new_size, head := 0, tail := 0\<rparr>"
    by (simp add: create_def split: if_splits)
  have "contents s = []" unfolding s by (simp add: contents_def bytesUsed_def)
  moreover have "nmsgs s = 0" unfolding s by (simp add: new_CircularBufferMsgs_def)
  ultimately show ?thesis
    using create_wf[OF assms] by (simp add: msgs_inv_def frames_def)
qed

lemma pushMsg_inv:
  fixes s :: "'a CircularBufferMsgs_scheme"
  assumes mw: "marker_width_ok TYPE('w::len)" and inv: "msgs_inv TYPE('w) s ms"
    and len: "unat n = length d" and pos: "0 < length d" and fit: "length d < 2 ^ LENGTH('w)"
    and room: "length d + unat (sizeof_msg_size_t TYPE('w)) \<le> unat (bytesFree s)"
  shows "\<exists>s'. pushMsg TYPE('w) (Some d) n s = Inr (True, s') \<and> msgs_inv TYPE('w) s' (ms @ [d])"
proof -
  from inv have wf: "well_formed s" and c: "contents s = frames TYPE('w) ms"
    and nm: "unat (nmsgs s) = length ms"
    and all: "list_all (\<lambda>m. length m < 2 ^ LENGTH('w)) ms"
    by (simp_all add: msgs_inv_def)
  have uz: "unat (sizeof_msg_size_t TYPE('w)) = LENGTH('w) div 8"
    using sizeof_unat(1)[OF mw] .
  have room': "unat n + LENGTH('w) div 8 \<le> unat (free_space s)"
    using room len uz by (simp add: bytesFree_def)
  have pos': "0 < n" using pos len by (simp add: word_less_nat_alt)
  have len': "unat n \<le> length d" using len by simp
  obtain s' where e: "pushMsg TYPE('w) (Some d) n s = Inr (True, s')" and w': "well_formed s'"
    and c': "contents s' = contents s @ marker_bytes (ucast n :: 'w word) @ take (unat n) d"
    and n': "nmsgs s' = nmsgs s + 1"
    using pushMsg_contents[OF mw wf len' pos' room'] by blast
  have "(ucast n :: 'w word) = of_nat (unat n)" by simp
  then have mk: "(ucast n :: 'w word) = of_nat (length d)" using len by simp
  have cf: "contents s' = frames TYPE('w) (ms @ [d])"
    using c' c mk len by (simp add: frames_def frame_def)
  have fc: "unat (free_space s) \<le> unat (allocated_size s)"
    and used: "unat (bytesUsed s) = unat (allocated_size s) - unat (free_space s)"
    by (rule wfD[OF wf], assumption)+
  have "length ms \<le> length (contents s)" using length_frames_ge[OF mw, of ms] c by simp
  then have "length ms \<le> unat (allocated_size s) - unat (free_space s)"
    using length_contents[OF wf] used by simp
  then have "length ms + 1 \<le> unat (allocated_size s)"
    using room' pos len fc by linarith
  then have "unat (nmsgs s) + unat (1 :: size_t) < 2 ^ LENGTH(64)"
    using nm unsigned_less[of "allocated_size s", where ?'a = nat] by simp
  then have "unat (nmsgs s + 1) = unat (nmsgs s) + unat (1 :: size_t)"
    by (simp only: unat_add_lem[THEN iffD1])
  then have cnt: "unat (nmsgs s') = length (ms @ [d])" using n' nm by simp
  have "msgs_inv TYPE('w) s' (ms @ [d])"
    using w' cf cnt all fit by (simp add: msgs_inv_def)
  then show ?thesis using e by blast
qed

lemma popMsgs_drain:
  fixes s :: "'a CircularBufferMsgs_scheme"
  assumes mw: "marker_width_ok TYPE('w::len)"
  shows "msgs_inv TYPE('w) s (ms @ rest) \<Longrightarrow> list_all2 (\<lambda>m mx. length m \<le> unat mx) ms maxs \<Longrightarrow>
         \<exists>s'. popMsgs TYPE('w) maxs s = Inr (map (\<lambda>m. (of_nat (length m), m)) ms, s') \<and>
              msgs_inv TYPE('w) s' rest"
proof (induction ms arbitrary: s maxs)
  case Nil
  then show ?case by simp
next
  case (Cons m ms)
  from Cons.prems(2) obtain mx maxs' where mx: "maxs = mx # maxs'" "length m \<le> unat mx"
    "list_all2 (\<lambda>m mx. length m \<le> unat mx) ms maxs'"
    by (auto simp: list_all2_Cons1)
  from Cons.prems(1) have inv: "msgs_inv TYPE('w) s (m # (ms @ rest))" by simp
  obtain r s1 where p: "popMsg TYPE('w) mx s = Inr (r, m, s1)" and ur: "unat r = length m"
    and i1: "msgs_inv TYPE('w) s1 (ms @ rest)"
    using popMsg_front[OF mw inv mx(2)] by blast
  have "r = of_nat (unat r)" by simp
  then have r: "r = of_nat (length m)" unfolding ur .
  obtain s' where q: "popMsgs TYPE('w) maxs' s1 = Inr (map (\<lambda>m. (of_nat (length m), m)) ms, s')"
    and i': "msgs_inv TYPE('w) s' rest"
    using Cons.IH[OF i1 mx(3)] by blast
  show ?case using p q i' r mx(1) by simp
qed

lemma pushMsg_wf:
  fixes s :: "'a CircularBufferMsgs_scheme"
  assumes wf: "well_formed s" and p: "pushMsg TYPE('w::len) data n s = Inr (ok, s')"
  shows "well_formed s'"
proof (cases "free_space s < n + sizeof_msg_size_t TYPE('w)")
  case True
  then show ?thesis using p wf by (simp add: pushMsg_def)
next
  case False
  with p obtain s1 s2 ok2 where
    p1: "push (Some (marker_bytes (ucast n :: 'w word))) (sizeof_msg_size_t TYPE('w)) s = Inr (True, s1)"
    and p2: "push data n s1 = Inr (ok2, s2)" and s': "s' = s2\<lparr>nmsgs := nmsgs s2 + 1\<rparr>"
    by (auto simp: pushMsg_def Let_def split: sum.splits if_splits)
  show ?thesis using push_wf[OF push_wf[OF wf p1] p2] s' by simp
qed

lemma popMsg_wf:
  fixes s :: "'a CircularBufferMsgs_scheme"
  assumes wf: "well_formed s" and p: "popMsg TYPE('w::len) max_data_size s = Inr (r, out, s')"
  shows "well_formed s'"
proof (cases "bytesUsed s < sizeof_msg_size_t TYPE('w)")
  case True
  then have "s' = s" using p by (simp add: popMsg_def Let_def)
  then show ?thesis using wf by simp
next
  case False
  from p False obtain mk s1 where
    p1: "pop (sizeof_msg_size_t TYPE('w)) s = Inr (True, mk, s1)"
    by (auto simp: popMsg_def Let_def split: sum.splits if_splits)
  from pop_changes[OF p1] obtain t f where s1: "s1 = s\<lparr>tail := t, free_space := f\<rparr>" by blast
  define msg_size where "msg_size = (marker_of_bytes mk :: 'w word)"
  show ?thesis
  proof (cases "max_data_size < (ucast msg_size :: size_t)")
    case True
    then have "s' = loadCheckPoint (saveCheckPoint s) s1"
      using p False p1 by (simp add: popMsg_def Let_def msg_size_def)
    then have "s' = s" using s1 by (simp add: loadCheckPoint_def saveCheckPoint_def)
    then show ?thesis using wf by simp
  next
    case big: False
    with p False p1 obtain s2 where
      p2: "pop (ucast msg_size) s1 = Inr (True, out, s2)"
      and a: "0 < nmsgs s2 - 1 \<or> empty_buf (s2\<lparr>nmsgs := nmsgs s2 - 1\<rparr>)"
      and s': "s' = (if nmsgs s2 - 1 = 0 then clear (s2\<lparr>nmsgs := nmsgs s2 - 1\<rparr>)
                    else s2\<lparr>nmsgs := nmsgs s2 - 1\<rparr>)"
      by (auto simp: popMsg_def Let_def msg_size_def split: sum.splits if_splits)
    have w2: "well_formed (s2\<lparr>nmsgs := nmsgs s2 - 1\<rparr>)"
      using pop_wf[OF pop_wf[OF wf p1] p2] by simp
    show ?thesis
    proof (cases "nmsgs s2 - 1 = 0")
      case True
      then have "empty_buf (s2\<lparr>nmsgs := nmsgs s2 - 1\<rparr>)" using a by simp
      then show ?thesis using wf_clear(1)[OF w2] s' True by simp
    next
      case False
      then show ?thesis using w2 s' by simp
    qed
  qed
qed

lemma runMsgs_wf:
  fixes s :: "'a CircularBufferMsgs_scheme"
  shows "well_formed s \<Longrightarrow> runMsgs TYPE('w::len) ops s = Inr s' \<Longrightarrow> well_formed s'"
proof (induction ops arbitrary: s)
  case Nil
  then show ?case by simp
next
  case (Cons op ops)
  show ?case
  proof (cases op)
    case (PushMsg data n)
    with Cons.prems obtain ok s1 where "pushMsg TYPE('w) data n s = Inr (ok, s1)"
      "runMsgs TYPE('w) ops s1 = Inr s'"
      by (auto split: sum.splits)
    then show ?thesis using Cons.IH Cons.prems(1) pushMsg_wf by blast
  next
    case (PopMsg mx)
    with Cons.prems obtain rv out s1 where "popMsg TYPE('w) mx s = Inr (rv, out, s1)"
      "runMsgs TYPE('w) ops s1 = Inr s'"
      by (auto split: sum.splits)
    then show ?thesis using Cons.IH Cons.prems(1) popMsg_wf by blast
  qed
qed

subsection \<open>The message counter\<close>

text \<open>
  Without any assumption on the stored bytes: a count of 0 goes with an empty buffer and
  cursors at 0.
\<close>

lemma push_keeps_nmsgs:
  fixes s :: "'a CircularBufferMsgs_scheme"
  assumes "push data n s = Inr (ok, s')"
  shows "nmsgs s' = nmsgs s"
  using assms
  by (auto simp: push_def Let_def split: if_splits option.splits sum.splits)

lemma pushMsg_count:
  fixes s :: "'a CircularBufferMsgs_scheme"
  assumes "pushMsg TYPE('w::len) data n s = Inr (ok, s')"
  shows "s' = s \<or> nmsgs s' = nmsgs s + 1"
proof (cases "free_space s < n + sizeof_msg_size_t TYPE('w)")
  case True
  then show ?thesis using assms by (simp add: pushMsg_def)
next
  case False
  with assms obtain s1 s2 ok2 where
    p1: "push (Some (marker_bytes (ucast n :: 'w word))) (sizeof_msg_size_t TYPE('w)) s = Inr (True, s1)"
    and p2: "push data n s1 = Inr (ok2, s2)" and s': "s' = s2\<lparr>nmsgs := nmsgs s2 + 1\<rparr>"
    by (auto simp: pushMsg_def Let_def split: sum.splits if_splits)
  show ?thesis
    using push_keeps_nmsgs[OF p1] push_keeps_nmsgs[OF p2] s' by simp
qed

lemma popMsg_count:
  fixes s :: "'a CircularBufferMsgs_scheme"
  assumes z: "sizeof_msg_size_t TYPE('w::len) \<noteq> 0"
    and inv: "nmsgs s = 0 \<longrightarrow> head s = 0 \<and> tail s = 0 \<and> free_space s = allocated_size s"
    and p: "popMsg TYPE('w) max_data_size s = Inr (r, out, s')"
  shows "(nmsgs s' = 0 \<longrightarrow> head s' = 0 \<and> tail s' = 0 \<and> free_space s' = allocated_size s') \<and>
         unat (nmsgs s') \<le> unat (nmsgs s)"
proof (cases "bytesUsed s < sizeof_msg_size_t TYPE('w)")
  case True
  then have "s' = s" using p by (simp add: popMsg_def Let_def)
  then show ?thesis using inv by simp
next
  case False
  have n0: "nmsgs s \<noteq> 0"
  proof
    assume "nmsgs s = 0"
    then have "bytesUsed s = 0" using inv by (simp add: bytesUsed_def)
    then show False using False z by (simp add: word_gt_0)
  qed
  from p False obtain mk s1 where
    p1: "pop (sizeof_msg_size_t TYPE('w)) s = Inr (True, mk, s1)"
    by (auto simp: popMsg_def Let_def split: sum.splits if_splits)
  from pop_changes[OF p1] obtain t f where s1: "s1 = s\<lparr>tail := t, free_space := f\<rparr>" by blast
  define msg_size where "msg_size = (marker_of_bytes mk :: 'w word)"
  show ?thesis
  proof (cases "max_data_size < (ucast msg_size :: size_t)")
    case True
    then have "s' = loadCheckPoint (saveCheckPoint s) s1"
      using p False p1 by (simp add: popMsg_def Let_def msg_size_def)
    then have "s' = s" using s1 by (simp add: loadCheckPoint_def saveCheckPoint_def)
    then show ?thesis using inv by simp
  next
    case big: False
    with p False p1 obtain s2 where
      p2: "pop (ucast msg_size) s1 = Inr (True, out, s2)"
      and a: "0 < nmsgs s2 - 1 \<or> empty_buf (s2\<lparr>nmsgs := nmsgs s2 - 1\<rparr>)"
      and s': "s' = (if nmsgs s2 - 1 = 0 then clear (s2\<lparr>nmsgs := nmsgs s2 - 1\<rparr>)
                    else s2\<lparr>nmsgs := nmsgs s2 - 1\<rparr>)"
      by (auto simp: popMsg_def Let_def msg_size_def split: sum.splits if_splits)
    from pop_changes[OF p2] obtain t2 f2 where s2: "s2 = s1\<lparr>tail := t2, free_space := f2\<rparr>"
      by blast
    have n2: "nmsgs s2 = nmsgs s" using s2 s1 by simp
    have le: "unat (nmsgs s') \<le> unat (nmsgs s)"
      using s' n2 unat_minus_one[OF n0] by (simp add: clear_def)
    have "nmsgs s' = 0 \<longrightarrow> head s' = 0 \<and> tail s' = 0 \<and> free_space s' = allocated_size s'"
    proof
      assume "nmsgs s' = 0"
      then have d0: "nmsgs s2 - 1 = 0" using s' by (auto simp: clear_def split: if_splits)
      then have "empty_buf (s2\<lparr>nmsgs := nmsgs s2 - 1\<rparr>)" using a by simp
      then show "head s' = 0 \<and> tail s' = 0 \<and> free_space s' = allocated_size s'"
        using s' d0 by (simp add: clear_def empty_buf_def)
    qed
    then show ?thesis using le by simp
  qed
qed

lemma runMsgs_count:
  fixes s :: "'a CircularBufferMsgs_scheme"
  assumes z: "sizeof_msg_size_t TYPE('w::len) \<noteq> 0"
  shows "nmsgs s = 0 \<longrightarrow> head s = 0 \<and> tail s = 0 \<and> free_space s = allocated_size s \<Longrightarrow>
         unat (nmsgs s) + length ops < 2 ^ 64 \<Longrightarrow> runMsgs TYPE('w) ops s = Inr s' \<Longrightarrow>
         nmsgs s' = 0 \<longrightarrow> head s' = 0 \<and> tail s' = 0 \<and> free_space s' = allocated_size s'"
proof (induction ops arbitrary: s)
  case Nil
  then show ?case by simp
next
  case (Cons op ops)
  show ?case
  proof (cases op)
    case (PushMsg data n)
    with Cons.prems(3) obtain ok s1 where p: "pushMsg TYPE('w) data n s = Inr (ok, s1)"
      and r: "runMsgs TYPE('w) ops s1 = Inr s'"
      by (auto split: sum.splits)
    from pushMsg_count[OF p] show ?thesis
    proof
      assume "s1 = s"
      then show ?thesis using Cons.IH[of s] Cons.prems r by simp
    next
      assume n1: "nmsgs s1 = nmsgs s + 1"
      have "unat (nmsgs s) + unat (1 :: size_t) < 2 ^ LENGTH(64)"
        using Cons.prems(2) by simp
      then have u: "unat (nmsgs s + 1) = unat (nmsgs s) + unat (1 :: size_t)"
        by (simp only: unat_add_lem[THEN iffD1])
      then have u1: "unat (nmsgs s1) = unat (nmsgs s) + 1" using n1 by simp
      then have "nmsgs s1 \<noteq> 0" by (metis Suc_eq_plus1 Zero_not_Suc unat_0)
      then have i1: "nmsgs s1 = 0 \<longrightarrow> head s1 = 0 \<and> tail s1 = 0 \<and> free_space s1 = allocated_size s1"
        by simp
      have b1: "unat (nmsgs s1) + length ops < 2 ^ 64" using u1 Cons.prems(2) by simp
      show ?thesis using Cons.IH[OF i1 b1 r] .
    qed
  next
    case (PopMsg mx)
    with Cons.prems(3) obtain rv out s1 where p: "popMsg TYPE('w) mx s = Inr (rv, out, s1)"
      and r: "runMsgs TYPE('w) ops s1 = Inr s'"
      by (auto split: sum.splits)
    from popMsg_count[OF z Cons.prems(1) p]
    have i1: "nmsgs s1 = 0 \<longrightarrow> head s1 = 0 \<and> tail s1 = 0 \<and> free_space s1 = allocated_size s1"
      and le: "unat (nmsgs s1) \<le> unat (nmsgs s)" by simp_all
    have b1: "unat (nmsgs s1) + length ops < 2 ^ 64" using le Cons.prems(2) by simp
    show ?thesis using Cons.IH[OF i1 b1 r] .
  qed
qed

subsection \<open>Calls that fail\<close>

text \<open>
  A call whose guard fires returns false and leaves the object as it was; for \<open>pushMsg\<close>
  the guard fires on too little room whenever its sum does not wrap.
\<close>

lemma failure_leaves_object:
  fixes s :: "'a CircularBuffer_scheme" and q :: "'b CircularBufferMsgs_scheme"
  shows "bytesFree s < n \<Longrightarrow> push data n s = Inr (False, s)"
    and "bytesUsed s < n \<Longrightarrow> pop n s = Inr (False, [], s)"
    and "unat (bytesFree q) < unat n + unat (sizeof_msg_size_t TYPE('w::len)) \<Longrightarrow>
         unat n + unat (sizeof_msg_size_t TYPE('w)) < 2 ^ 64 \<Longrightarrow>
         pushMsg TYPE('w) data n q = Inr (False, q)"
proof -
  show "bytesFree s < n \<Longrightarrow> push data n s = Inr (False, s)"
    by (simp add: push_def bytesFree_def)
  show "bytesUsed s < n \<Longrightarrow> pop n s = Inr (False, [], s)"
    by (simp add: pop_def Let_def)
  assume a: "unat (bytesFree q) < unat n + unat (sizeof_msg_size_t TYPE('w))"
    and b: "unat n + unat (sizeof_msg_size_t TYPE('w)) < 2 ^ 64"
  from b have "unat n + unat (sizeof_msg_size_t TYPE('w)) < 2 ^ LENGTH(64)" by simp
  then have "unat (n + sizeof_msg_size_t TYPE('w)) = unat n + unat (sizeof_msg_size_t TYPE('w))"
    by (simp only: unat_add_lem[THEN iffD1])
  then have "free_space q < n + sizeof_msg_size_t TYPE('w)"
    using a by (simp add: word_less_nat_alt bytesFree_def)
  then show "pushMsg TYPE('w) data n q = Inr (False, q)"
    by (simp add: pushMsg_def)
qed

section \<open>The claims\<close>

subsection \<open>C1: the framed round trip\<close>

text \<open>
  C1 states that every payload of length \<open>L < 2^W\<close> with \<open>L + sizeof(marker)\<close> bytes
  free is accepted by \<open>pushMsg\<close> and returned by the \<open>popMsg\<close> that dequeues it. For
  \<open>L = 0\<close> the payload \<open>push\<close> inside \<open>pushMsg\<close> fails \<open>assert(data_size > 0)\<close>:
  here on a queue of 8 bytes, created and holding one record, with 4 bytes free.
\<close>

theorem framed_round_trip_counterexample:
  "create 8 zero_filled new_CircularBufferMsgs = Inr msgs8_created \<and>
   pushMsg TYPE(16) (Some [7, 8]) 2 msgs8_created = Inr (True, msgs8_one) \<and>
   (0 :: nat) < 2 ^ LENGTH(16) \<and>
   0 + sizeof_msg_size_t TYPE(16) \<le> bytesFree msgs8_one \<and>
   pushMsg TYPE(16) (Some []) 0 msgs8_one = Inl AssertSizePositive"
proof -
  have c: "create 8 zero_filled new_CircularBufferMsgs = Inr msgs8_created" by code_simp
  have p: "pushMsg TYPE(16) (Some [7, 8]) 2 msgs8_created = Inr (True, msgs8_one)" by code_simp
  have a: "0 + sizeof_msg_size_t TYPE(16) \<le> bytesFree msgs8_one" by code_simp
  have b: "pushMsg TYPE(16) (Some []) 0 msgs8_one = Inl AssertSizePositive" by code_simp
  show ?thesis using c p a b by simp
qed

text \<open>
  C1 as amended: in a well-formed queue holding the records of the payloads \<open>ms\<close>,
  each shorter than \<open>2^W\<close>, every payload \<open>d\<close> of length \<open>L\<close> with \<open>0 < L < 2^W\<close>
  and \<open>L + sizeof(marker) \<le> bytesFree()\<close> is accepted by \<open>pushMsg\<close>, which returns
  true; after the older records have been dequeued (each with a large enough receive
  buffer), \<open>popMsg\<close> with \<open>max_data_size \<ge> L\<close> returns \<open>L\<close> and writes exactly the
  bytes of \<open>d\<close>, and the queue is empty again.
\<close>

theorem framed_round_trip:
  fixes s :: "'a CircularBufferMsgs_scheme"
  assumes "marker_width_ok TYPE('w::len)" and "msgs_inv TYPE('w) s ms"
    and "unat data_size = length d" and "0 < length d" and "length d < 2 ^ LENGTH('w)"
    and "length d + unat (sizeof_msg_size_t TYPE('w)) \<le> unat (bytesFree s)"
    and "list_all2 (\<lambda>m mx. length m \<le> unat mx) ms maxs"
    and "length d \<le> unat max_data_size"
  shows "\<exists>s1 s2 s3.
           pushMsg TYPE('w) (Some d) data_size s = Inr (True, s1) \<and>
           popMsgs TYPE('w) maxs s1 = Inr (map (\<lambda>m. (of_nat (length m), m)) ms, s2) \<and>
           popMsg TYPE('w) max_data_size s2 = Inr (data_size, d, s3) \<and>
           msgs_inv TYPE('w) s3 []"
proof -
  obtain s1 where e1: "pushMsg TYPE('w) (Some d) data_size s = Inr (True, s1)"
    and i1: "msgs_inv TYPE('w) s1 (ms @ [d])"
    using pushMsg_inv[OF assms(1-6)] by blast
  obtain s2 where e2: "popMsgs TYPE('w) maxs s1 = Inr (map (\<lambda>m. (of_nat (length m), m)) ms, s2)"
    and i2: "msgs_inv TYPE('w) s2 [d]"
    using popMsgs_drain[OF assms(1) i1 assms(7)] by blast
  obtain r s3 where e3: "popMsg TYPE('w) max_data_size s2 = Inr (r, d, s3)"
    and ur: "unat r = length d" and i3: "msgs_inv TYPE('w) s3 []"
    using popMsg_front[OF assms(1) i2 assms(8)] by blast
  have "r = data_size" using ur assms(3) by (simp add: word_unat_eq_iff)
  then show ?thesis using e1 e2 e3 i3 by blast
qed

theorem framed_round_trip_witness:
  "marker_width_ok TYPE(16) \<and> msgs_inv TYPE(16) msgs8_one ([7, 8] # []) \<and>
   unat (1 :: size_t) = length [9 :: byte] \<and> 0 < length [9 :: byte] \<and>
   length [9 :: byte] < 2 ^ LENGTH(16) \<and>
   length [9 :: byte] + unat (sizeof_msg_size_t TYPE(16)) \<le> unat (bytesFree msgs8_one) \<and>
   list_all2 (\<lambda>m mx. length m \<le> unat mx) ([7, 8 :: byte] # []) [2 :: size_t] \<and>
   length [9 :: byte] \<le> unat (1 :: size_t) \<and>
   (\<exists>s1 s2 s3.
      pushMsg TYPE(16) (Some [9]) 1 msgs8_one = Inr (True, s1) \<and>
      popMsgs TYPE(16) [2] s1 = Inr (map (\<lambda>m. (of_nat (length m), m)) ([7, 8] # []), s2) \<and>
      popMsg TYPE(16) 1 s2 = Inr (1, [9], s3) \<and>
      msgs_inv TYPE(16) s3 [])"
proof -
  have w: "well_formed msgs8_one" by code_simp
  have c: "contents msgs8_one = frames TYPE(16) ([7, 8] # [])" by code_simp
  have n: "unat (nmsgs msgs8_one) = length ([7, 8 :: byte] # [])" by code_simp
  have i: "msgs_inv TYPE(16) msgs8_one ([7, 8] # [])"
    by (rule msgs_invI[OF w c n]) simp
  have l: "unat (1 :: size_t) = length [9 :: byte]" by simp
  have p: "0 < length [9 :: byte]" by simp
  have f: "length [9 :: byte] < 2 ^ LENGTH(16)" by simp
  have r: "length [9 :: byte] + unat (sizeof_msg_size_t TYPE(16)) \<le> unat (bytesFree msgs8_one)"
    by code_simp
  have a: "list_all2 (\<lambda>m mx. length m \<le> unat mx) ([7, 8 :: byte] # []) [2 :: size_t]" by simp
  have m: "length [9 :: byte] \<le> unat (1 :: size_t)" by simp
  show ?thesis
    using marker16 i r a framed_round_trip[OF marker16 i l p f r a m] by simp
qed

subsection \<open>C2: the empty payload\<close>

text \<open>
  C2 states that, with the default 16-bit marker, \<open>pushMsg\<close> of a 0-length payload
  succeeds when the marker fits. In a queue of 8 bytes just created it aborts instead:
  the marker is pushed, and the payload \<open>push\<close> fails \<open>assert(data_size > 0)\<close>.
\<close>

theorem empty_payload_counterexample:
  "create 8 zero_filled new_CircularBufferMsgs = Inr msgs8_created \<and>
   sizeof_msg_size_t TYPE(16) \<le> bytesFree msgs8_created \<and>
   pushMsg TYPE(16) (Some []) 0 msgs8_created = Inl AssertSizePositive"
  by code_simp

text \<open>
  C2 as amended: with the default 16-bit marker, \<open>pushMsg\<close> of a 0-length payload into a
  well-formed queue with at least \<open>sizeof(marker)\<close> bytes free is a contract violation
  and returns nothing: after the marker has been pushed, the payload \<open>push\<close> fails
  \<open>assert(data_size > 0)\<close> (or \<open>assert(data)\<close> when the payload pointer is null); in a
  queue of capacity 2 the marker \<open>push\<close> already fails
  \<open>assert(data_size < allocated_size)\<close>.
\<close>

theorem empty_payload_aborts:
  fixes s :: "'a CircularBufferMsgs_scheme"
  assumes "well_formed s" and "sizeof_msg_size_t TYPE(16) \<le> bytesFree s"
  shows "pushMsg TYPE(16) data 0 s =
           Inl (if allocated_size s \<le> 2 then AssertSizeBelowCapacity
                else if data = None then AssertData else AssertSizePositive)"
proof -
  have z: "sizeof_msg_size_t TYPE(16) = 2" by (simp add: sizeof_msg_size_t_def)
  from assms(2) have le: "2 \<le> free_space s" by (simp add: z bytesFree_def)
  then have g: "\<not> free_space s < 2" by simp
  show ?thesis
  proof (cases "allocated_size s \<le> 2")
    case True
    then have "\<not> 2 < allocated_size s" by simp
    then show ?thesis using g True
      by (simp add: pushMsg_def push_def z Let_def)
  next
    case False
    then have lt: "2 < allocated_size s" by simp
    have len: "unat (2 :: size_t) \<le> length (marker_bytes (ucast (0 :: size_t) :: 16 word))"
      by (simp add: length_marker_bytes)
    obtain b h' where
      p: "push (Some (marker_bytes (ucast (0 :: size_t) :: 16 word))) 2 s
            = Inr (True, s\<lparr>free_space := free_space s - 2, buffer := b, head := h'\<rparr>)"
      using push_spec[OF assms(1) le _ lt len] by auto
    show ?thesis using g False p
      by (cases data) (simp_all add: pushMsg_def z Let_def push_def)
  qed
qed

theorem empty_payload_aborts_witness:
  "well_formed msgs8_created \<and> sizeof_msg_size_t TYPE(16) \<le> bytesFree msgs8_created \<and>
   pushMsg TYPE(16) (Some []) 0 msgs8_created = Inl AssertSizePositive"
proof -
  have w: "well_formed msgs8_created" by code_simp
  have f: "sizeof_msg_size_t TYPE(16) \<le> bytesFree msgs8_created" by code_simp
  have a: "\<not> allocated_size msgs8_created \<le> 2" by code_simp
  show ?thesis using w f a empty_payload_aborts[OF w f, of "Some []"] by simp
qed

subsection \<open>C3: the range of the cursors\<close>

text \<open>
  C3 states that in every state reached by \<open>create\<close> followed by \<open>push\<close> and \<open>pop\<close>
  calls, \<open>head\<close> and \<open>tail\<close> are strictly below the capacity. The code leaves a
  cursor equal to the capacity when a copy ends exactly at the end of the storage: in a
  buffer of 4 bytes, two pushes of 2 bytes leave \<open>head = 4\<close>.
\<close>

theorem cursor_at_capacity_counterexample:
  "create 4 zero_filled new_CircularBuffer = Inr ring4_created \<and>
   run [Push (Some [1, 2]) 2, Push (Some [3, 4]) 2] ring4_created = Inr ring4_full \<and>
   \<not> head ring4_full < allocated_size ring4_full"
  by code_simp

text \<open>
  C3 as amended: in every state reached by \<open>create\<close> followed by any sequence of
  \<open>push\<close> and \<open>pop\<close> calls that return, \<open>head\<close> and \<open>tail\<close> are at most the
  capacity.
\<close>

theorem cursors_within_capacity:
  fixes s0 :: "'a CircularBuffer_scheme"
  assumes "create new_size fresh s_new = Inr s0" and "run ops s0 = Inr s"
  shows "head s \<le> allocated_size s \<and> tail s \<le> allocated_size s"
proof -
  have "well_formed s" using run_wf[OF create_wf[OF assms(1)] assms(2)] .
  then show ?thesis by (auto simp: well_formed_def split: storage.splits)
qed

theorem cursors_within_capacity_witness:
  "create 4 zero_filled new_CircularBuffer = Inr ring4_created \<and>
   run [Push (Some [1, 2]) 2, Push (Some [3, 4]) 2] ring4_created = Inr ring4_full \<and>
   head ring4_full \<le> allocated_size ring4_full \<and> tail ring4_full \<le> allocated_size ring4_full"
proof -
  have c: "create 4 zero_filled new_CircularBuffer = Inr ring4_created"
    by code_simp
  have r: "run [Push (Some [1, 2]) 2, Push (Some [3, 4]) 2] ring4_created = Inr ring4_full"
    by code_simp
  show ?thesis using c r cursors_within_capacity[OF c r] by simp
qed

subsection \<open>C4: a receive buffer that is too small\<close>

text \<open>
  C4: when the oldest record of a well-formed queue has a payload longer than
  \<open>max_data_size\<close>, \<open>popMsg\<close> returns false (0) and writes nothing, and the object is
  as before, hence also \<open>bytesUsed()\<close>, \<open>numMsgs()\<close> and both cursors; a later
  \<open>popMsg\<close> with a large enough buffer returns the payload and its length.
\<close>

theorem oversized_message_is_kept:
  fixes s :: "'a CircularBufferMsgs_scheme"
  assumes "marker_width_ok TYPE('w::len)" and "msgs_inv TYPE('w) s (m # ms)"
    and "unat max_data_size < length m" and "length m \<le> unat larger"
  shows "popMsg TYPE('w) max_data_size s = Inr (0, [], s) \<and>
         (\<exists>s'. popMsg TYPE('w) larger s = Inr (of_nat (length m), m, s') \<and>
               msgs_inv TYPE('w) s' ms)"
proof -
  obtain r s' where e: "popMsg TYPE('w) larger s = Inr (r, m, s')" and ur: "unat r = length m"
    and i: "msgs_inv TYPE('w) s' ms"
    using popMsg_front[OF assms(1,2,4)] by blast
  have "r = of_nat (unat r)" by simp
  then have "r = of_nat (length m)" unfolding ur .
  then show ?thesis
    using popMsg_too_small[OF assms(1-3)] e i by blast
qed

theorem oversized_message_is_kept_witness:
  "marker_width_ok TYPE(16) \<and> msgs_inv TYPE(16) msgs6_one ([7, 8] # []) \<and>
   unat (1 :: size_t) < length [7, 8 :: byte] \<and> length [7, 8 :: byte] \<le> unat (2 :: size_t) \<and>
   popMsg TYPE(16) 1 msgs6_one = Inr (0, [], msgs6_one) \<and>
   (\<exists>s'. popMsg TYPE(16) 2 msgs6_one = Inr (of_nat (length [7, 8 :: byte]), [7, 8], s') \<and>
         msgs_inv TYPE(16) s' [])"
proof -
  have w: "well_formed msgs6_one" by code_simp
  have c: "contents msgs6_one = frames TYPE(16) ([7, 8] # [])" by code_simp
  have n: "unat (nmsgs msgs6_one) = length ([7, 8 :: byte] # [])" by code_simp
  have i: "msgs_inv TYPE(16) msgs6_one ([7, 8] # [])"
    by (rule msgs_invI[OF w c n]) simp
  have a: "unat (1 :: size_t) < length [7, 8 :: byte]" by simp
  have b: "length [7, 8 :: byte] \<le> unat (2 :: size_t)" by simp
  show ?thesis
    using marker16 i oversized_message_is_kept[OF marker16 i a b] by simp
qed

subsection \<open>C5: failure without mutation\<close>

text \<open>
  C5: \<open>push\<close> with a size above \<open>bytesFree()\<close>, \<open>pop\<close> with a size above
  \<open>bytesUsed()\<close>, and \<open>pushMsg\<close> with \<open>size + sizeof(marker)\<close> above
  \<open>bytesFree()\<close> return false and leave the object as it was. \<open>push\<close> and \<open>pop\<close>
  do, and \<open>pushMsg\<close> does while the sum fits in a \<open>size_t\<close>
  (\<open>failure_leaves_object\<close>). The guard of \<open>pushMsg\<close> adds in \<open>size_t\<close>, though:
  on a queue of 8 bytes just created, for \<open>data_size = 2^64 - 2\<close> the sum exceeds the
  8 free bytes but wraps to 0, the guard does not fire, the marker is pushed, the payload
  \<open>push\<close> returns false, and \<open>pushMsg\<close> fails its own \<open>assert(is_ok)\<close> instead of
  returning false.
\<close>

theorem pushMsg_guard_overflow:
  "create 8 zero_filled new_CircularBufferMsgs = Inr msgs8_created \<and>
   unat (bytesFree msgs8_created)
     < unat (18446744073709551614 :: size_t) + unat (sizeof_msg_size_t TYPE(16)) \<and>
   (18446744073709551614 :: size_t) + sizeof_msg_size_t TYPE(16) = 0 \<and>
   pushMsg TYPE(16) (Some [9]) 18446744073709551614 msgs8_created = Inl AssertIsOk"
proof -
  have c: "create 8 zero_filled new_CircularBufferMsgs = Inr msgs8_created" by code_simp
  have z: "sizeof_msg_size_t TYPE(16) = 2" by (simp add: sizeof_msg_size_t_def)
  have f: "bytesFree msgs8_created = 8" by (simp add: bytesFree_def msgs8_created_def)
  have a: "unat (bytesFree msgs8_created)
     < unat (18446744073709551614 :: size_t) + unat (sizeof_msg_size_t TYPE(16))"
    unfolding z f by simp
  have w: "(18446744073709551614 :: size_t) + sizeof_msg_size_t TYPE(16) = 0"
    unfolding z by simp
  have wf: "well_formed msgs8_created" by code_simp
  have le: "2 \<le> free_space msgs8_created" by (simp add: msgs8_created_def)
  have lt: "2 < allocated_size msgs8_created" by (simp add: msgs8_created_def)
  have len: "unat (2 :: size_t)
      \<le> length (marker_bytes (ucast (18446744073709551614 :: size_t) :: 16 word))"
    by (simp add: length_marker_bytes)
  obtain b h' where
    m: "push (Some (marker_bytes (ucast (18446744073709551614 :: size_t) :: 16 word))) 2 msgs8_created
          = Inr (True, msgs8_created\<lparr>free_space := free_space msgs8_created - 2,
                                      buffer := b, head := h'\<rparr>)"
    using push_spec[OF wf le _ lt len] by auto
  have g: "\<not> free_space msgs8_created < 18446744073709551614 + 2"
    by (simp add: msgs8_created_def)
  have d: "free_space msgs8_created - 2 < 18446744073709551614"
    by (simp add: msgs8_created_def)
  have p: "pushMsg TYPE(16) (Some [9]) 18446744073709551614 msgs8_created = Inl AssertIsOk"
    using g m d by (simp add: pushMsg_def z Let_def push_def)
  show ?thesis using c a w p by (intro conjI)
qed

subsection \<open>C6: the raw round trip\<close>

text \<open>
  C6 states that in every state where \<open>push(data, n)\<close> succeeds, popping \<open>n\<close> bytes
  returns the pushed bytes. The buffer is a queue: when bytes are already buffered, the
  next \<open>pop\<close> returns those. After pushing 1, 2 and then 3, 4 into a ring of 4 bytes,
  popping 2 bytes returns 1, 2.
\<close>

theorem raw_round_trip_counterexample:
  "create 4 zero_filled new_CircularBuffer = Inr ring4_created \<and>
   push (Some [1, 2]) 2 ring4_created = Inr (True, ring4_half) \<and>
   push (Some [3, 4]) 2 ring4_half = Inr (True, ring4_full) \<and>
   pop 2 ring4_full = Inr (True, [1, 2], ring4_full\<lparr>tail := 2, free_space := 2\<rparr>) \<and>
   [1, 2] \<noteq> [3, 4 :: byte]"
  by code_simp

text \<open>
  C6 as amended: in every well-formed state where \<open>push(data, n)\<close> succeeds, once the
  \<open>bytesUsed()\<close> bytes buffered before the push have been popped (in any split of
  pops, which return them), popping \<open>n\<close> bytes in any split of pops totalling \<open>n\<close>
  succeeds and returns exactly the \<open>n\<close> pushed bytes in write order, wherever the
  cursors stand, so also when the push or a pop is split at the end of the storage.
\<close>

theorem raw_round_trip:
  fixes s :: "'a CircularBuffer_scheme"
  assumes "well_formed s" and "push (Some d) data_size s = Inr (True, s1)"
    and "sum_list (map unat older) = unat (bytesUsed s)"
    and "sum_list (map unat sizes) = unat data_size"
  shows "\<exists>rs0 s2 rs s3.
           pops older s1 = Inr (rs0, s2) \<and> list_all fst rs0 \<and>
           concat (map snd rs0) = contents s \<and>
           pops sizes s2 = Inr (rs, s3) \<and> list_all fst rs \<and>
           concat (map snd rs) = take (unat data_size) d"
proof -
  note g = push_success[OF assms(1,2)]
  obtain b h' where
    "push (Some d) data_size s
       = Inr (True, s\<lparr>free_space := free_space s - data_size, buffer := b, head := h'\<rparr>)"
    "well_formed (s\<lparr>free_space := free_space s - data_size, buffer := b, head := h'\<rparr>)"
    "contents (s\<lparr>free_space := free_space s - data_size, buffer := b, head := h'\<rparr>)
       = contents s @ take (unat data_size) d"
    using push_spec[OF assms(1) g] by blast
  then have w1: "well_formed s1" and c1: "contents s1 = contents s @ take (unat data_size) d"
    using assms(2) by auto
  have lc: "sum_list (map unat older) = length (contents s)"
    using assms(3) length_contents[OF assms(1)] by simp
  then have "sum_list (map unat older) \<le> length (contents s1)" using c1 by simp
  then obtain rs0 s2 where p0: "pops older s1 = Inr (rs0, s2)" and a0: "list_all fst rs0"
    and o0: "concat (map snd rs0) = take (sum_list (map unat older)) (contents s1)"
    and w2: "well_formed s2" and c2: "contents s2 = drop (sum_list (map unat older)) (contents s1)"
    using pops_take[OF w1] by blast
  have o0': "concat (map snd rs0) = contents s" using o0 c1 lc by simp
  have c2': "contents s2 = take (unat data_size) d" using c2 c1 lc by simp
  have "sum_list (map unat sizes) \<le> length (contents s2)"
    using assms(4) c2' g(4) by simp
  then obtain rs s3 where p1: "pops sizes s2 = Inr (rs, s3)" and a1: "list_all fst rs"
    and o1: "concat (map snd rs) = take (sum_list (map unat sizes)) (contents s2)"
    using pops_take[OF w2] by blast
  have "concat (map snd rs) = take (unat data_size) d"
    using o1 c2' assms(4) by simp
  then show ?thesis using p0 a0 o0' p1 a1 by blast
qed

theorem raw_round_trip_witness:
  "well_formed ring4_half \<and> push (Some [3, 4]) 2 ring4_half = Inr (True, ring4_full) \<and>
   sum_list (map unat [1, 1 :: size_t]) = unat (bytesUsed ring4_half) \<and>
   sum_list (map unat [2 :: size_t]) = unat (2 :: size_t) \<and>
   (\<exists>rs0 s2 rs s3.
      pops [1, 1] ring4_full = Inr (rs0, s2) \<and> list_all fst rs0 \<and>
      concat (map snd rs0) = contents ring4_half \<and>
      pops [2] s2 = Inr (rs, s3) \<and> list_all fst rs \<and>
      concat (map snd rs) = take (unat (2 :: size_t)) [3, 4])"
proof -
  have w: "well_formed ring4_half" by code_simp
  have p: "push (Some [3, 4]) 2 ring4_half = Inr (True, ring4_full)" by code_simp
  have o: "sum_list (map unat [1, 1 :: size_t]) = unat (bytesUsed ring4_half)" by code_simp
  have n: "sum_list (map unat [2 :: size_t]) = unat (2 :: size_t)" by simp
  show ?thesis using w p o raw_round_trip[OF w p o n] by simp
qed

subsection \<open>C7: the marker wraps\<close>

text \<open>
  C7: when \<open>data_size + sizeof(marker) \<le> bytesFree()\<close> and \<open>data_size \<ge> 2^W\<close>,
  \<open>pushMsg\<close> on a well-formed queue returns true; the record it appends is the marker of
  \<open>(msg_size_t)data_size\<close> followed by the whole payload, and the marker read back
  from the record is \<open>data_size mod 2^W\<close>, less than the length of the payload.
\<close>

theorem marker_narrowing_wraps:
  fixes s :: "'a CircularBufferMsgs_scheme"
  assumes "marker_width_ok TYPE('w::len)" and "well_formed s"
    and "unat data_size = length d"
    and "2 ^ LENGTH('w) \<le> unat data_size"
    and "unat data_size + unat (sizeof_msg_size_t TYPE('w)) \<le> unat (bytesFree s)"
  shows "\<exists>s'. pushMsg TYPE('w) (Some d) data_size s = Inr (True, s') \<and>
           contents s' = contents s @ marker_bytes (ucast data_size :: 'w word) @ d \<and>
           unat (marker_of_bytes
                   (take (unat (sizeof_msg_size_t TYPE('w)))
                      (drop (length (contents s)) (contents s'))) :: 'w word)
             = unat data_size mod 2 ^ LENGTH('w) \<and>
           unat data_size mod 2 ^ LENGTH('w) < unat data_size"
proof -
  have uz: "unat (sizeof_msg_size_t TYPE('w)) = LENGTH('w) div 8"
    using sizeof_unat(1)[OF assms(1)] .
  have room: "unat data_size + LENGTH('w) div 8 \<le> unat (free_space s)"
    using assms(5) uz by (simp add: bytesFree_def)
  have "(0::nat) < 2 ^ LENGTH('w)" by simp
  then have k0: "0 < unat data_size" using assms(4) by linarith
  then have pos: "0 < data_size" by (simp add: word_less_nat_alt)
  have len: "unat data_size \<le> length d" using assms(3) by simp
  obtain s' where e: "pushMsg TYPE('w) (Some d) data_size s = Inr (True, s')"
    and c: "contents s' = contents s @ marker_bytes (ucast data_size :: 'w word) @ take (unat data_size) d"
    using pushMsg_contents[OF assms(1,2) len pos room] by blast
  have c': "contents s' = contents s @ marker_bytes (ucast data_size :: 'w word) @ d"
    using c assms(3) by simp
  have "take (unat (sizeof_msg_size_t TYPE('w))) (drop (length (contents s)) (contents s'))
      = marker_bytes (ucast data_size :: 'w word)"
    using c' uz by (simp add: length_marker_bytes)
  then have m: "unat (marker_of_bytes
                   (take (unat (sizeof_msg_size_t TYPE('w)))
                      (drop (length (contents s)) (contents s'))) :: 'w word)
             = unat data_size mod 2 ^ LENGTH('w)"
    using marker_roundtrip[OF assms(1)] by (simp add: unat_marker_down)
  have "unat data_size mod 2 ^ LENGTH('w) < 2 ^ LENGTH('w)" by simp
  then have lt: "unat data_size mod 2 ^ LENGTH('w) < unat data_size"
    using assms(4) by linarith
  show ?thesis using e c' m lt by blast
qed

theorem marker_narrowing_wraps_witness:
  "marker_width_ok TYPE(16) \<and> well_formed msgs70000_created \<and>
   unat (65537 :: size_t) = length (replicate 65537 (1 :: byte)) \<and>
   2 ^ LENGTH(16) \<le> unat (65537 :: size_t) \<and>
   unat (65537 :: size_t) + unat (sizeof_msg_size_t TYPE(16)) \<le> unat (bytesFree msgs70000_created) \<and>
   (\<exists>s'. pushMsg TYPE(16) (Some (replicate 65537 1)) 65537 msgs70000_created = Inr (True, s') \<and>
      contents s' = contents msgs70000_created @ marker_bytes (ucast (65537 :: size_t) :: 16 word)
                      @ replicate 65537 1 \<and>
      unat (marker_of_bytes
              (take (unat (sizeof_msg_size_t TYPE(16)))
                 (drop (length (contents msgs70000_created)) (contents s'))) :: 16 word)
        = unat (65537 :: size_t) mod 2 ^ LENGTH(16) \<and>
      unat (65537 :: size_t) mod 2 ^ LENGTH(16) < unat (65537 :: size_t))"
proof -
  have w: "well_formed msgs70000_created"
    by (simp add: well_formed_def msgs70000_created_def bytesUsed_def)
  have l: "unat (65537 :: size_t) = length (replicate 65537 (1 :: byte))" by simp
  have b: "2 ^ LENGTH(16) \<le> unat (65537 :: size_t)" by simp
  have r: "unat (65537 :: size_t) + unat (sizeof_msg_size_t TYPE(16))
             \<le> unat (bytesFree msgs70000_created)"
    by (simp add: sizeof_msg_size_t_def bytesFree_def msgs70000_created_def)
  show ?thesis
    using marker16 w l b r marker_narrowing_wraps[OF marker16 w l b r]
    by (intro conjI) assumption+
qed

subsection \<open>C8: cursors at 0 when no message is counted\<close>

text \<open>
  C8: in every state of the queue reached from the new object by \<open>create\<close> and then
  \<open>pushMsg\<close> and \<open>popMsg\<close> calls that return, \<open>numMsgs() == 0\<close> implies that
  \<open>head\<close> and \<open>tail\<close> are 0. The counter \<open>nmsgs\<close> is a \<open>size_t\<close>; the statement
  covers the sequences of fewer than \<open>2^64\<close> calls, in which \<open>++nmsgs\<close> cannot wrap
  to 0.
\<close>

theorem no_messages_cursors_zero:
  assumes "marker_width_ok TYPE('w::len)"
    and "create new_size fresh new_CircularBufferMsgs = Inr s0"
    and "runMsgs TYPE('w) ops s0 = Inr s"
    and "length ops < 2 ^ 64"
  shows "numMsgs s = 0 \<longrightarrow> head s = 0 \<and> tail s = 0"
proof -
  have "unat (sizeof_msg_size_t TYPE('w)) \<noteq> 0"
    using sizeof_unat[OF assms(1)] by simp
  then have z: "sizeof_msg_size_t TYPE('w) \<noteq> 0" by (metis unat_0)
  from assms(2) have s0: "s0 = new_CircularBufferMsgs\<lparr>buffer := Live (map fresh [0..<unat new_size]),
        allocated_size := new_size, free_space := new_size, head := 0, tail := 0\<rparr>"
    by (simp add: create_def split: if_splits)
  have i0: "nmsgs s0 = 0 \<longrightarrow> head s0 = 0 \<and> tail s0 = 0 \<and> free_space s0 = allocated_size s0"
    unfolding s0 by simp
  have b0: "unat (nmsgs s0) + length ops < 2 ^ 64"
    using assms(4) unfolding s0 by (simp add: new_CircularBufferMsgs_def)
  show ?thesis
    using runMsgs_count[OF z i0 b0 assms(3)] by (simp add: numMsgs_def)
qed

theorem no_messages_cursors_zero_witness:
  "marker_width_ok TYPE(16) \<and>
   create 8 zero_filled new_CircularBufferMsgs = Inr msgs8_created \<and>
   runMsgs TYPE(16) [PushMsg (Some [7, 8]) 2, PopMsg 2] msgs8_created = Inr msgs8_drained \<and>
   length [PushMsg (Some [7, 8]) 2, PopMsg 2] < 2 ^ 64 \<and>
   numMsgs msgs8_drained = 0 \<and> head msgs8_drained = 0 \<and> tail msgs8_drained = 0"
proof -
  have c: "create 8 zero_filled new_CircularBufferMsgs = Inr msgs8_created" by code_simp
  have r: "runMsgs TYPE(16) [PushMsg (Some [7, 8]) 2, PopMsg 2] msgs8_created = Inr msgs8_drained"
    by code_simp
  have l: "length [PushMsg (Some [7, 8]) 2, PopMsg 2] < 2 ^ 64" by simp
  have n: "numMsgs msgs8_drained = 0" by code_simp
  show ?thesis
    using marker16 c r l n no_messages_cursors_zero[OF marker16 c r l] by simp
qed

subsection \<open>C9: checkpoints\<close>

text \<open>
  C9: for every state \<open>s\<close>, loading the checkpoint saved in \<open>s\<close> after any sequence
  of \<open>pop\<close> calls gives back \<open>s\<close>: \<open>head\<close>, \<open>tail\<close> and \<open>free_space\<close> are
  restored and \<open>pop\<close> changed nothing else, so the same calls repeated after the
  restore return the same bytes.
\<close>

theorem checkpoint_round_trip:
  assumes "pops sizes s = Inr (rs, s')"
  shows "loadCheckPoint (saveCheckPoint s) s' = s \<and>
         pops sizes (loadCheckPoint (saveCheckPoint s) s') = Inr (rs, s')"
proof -
  from pops_changes[OF assms] obtain t f where "s' = s\<lparr>tail := t, free_space := f\<rparr>" by blast
  then have "loadCheckPoint (saveCheckPoint s) s' = s"
    by (simp add: loadCheckPoint_def saveCheckPoint_def)
  then show ?thesis using assms by simp
qed

theorem checkpoint_round_trip_witness:
  "pops [1, 2] msgs6_one
     = Inr ([(True, [2]), (True, [0, 7])], msgs6_one\<lparr>tail := 3, free_space := 5\<rparr>) \<and>
   loadCheckPoint (saveCheckPoint msgs6_one) (msgs6_one\<lparr>tail := 3, free_space := 5\<rparr>) = msgs6_one \<and>
   pops [1, 2] (loadCheckPoint (saveCheckPoint msgs6_one) (msgs6_one\<lparr>tail := 3, free_space := 5\<rparr>))
     = Inr ([(True, [2]), (True, [0, 7])], msgs6_one\<lparr>tail := 3, free_space := 5\<rparr>)"
proof -
  have p: "pops [1, 2] msgs6_one
     = Inr ([(True, [2]), (True, [0, 7])], msgs6_one\<lparr>tail := 3, free_space := 5\<rparr>)"
    by code_simp
  show ?thesis using p checkpoint_round_trip[OF p] by simp
qed

subsection \<open>C10: no \<open>create\<close> after \<open>destroy\<close>\<close>

text \<open>
  C10: \<open>destroy\<close> releases the storage and zeroes \<open>allocated_size\<close>, \<open>free_space\<close>
  and the cursors, but leaves \<open>buffer\<close> pointing to the released storage; whatever
  was pushed and popped between \<open>create\<close> and \<open>destroy\<close>, a later \<open>create\<close> fails
  \<open>assert(buffer == nullptr)\<close> although \<open>allocated_size\<close> is 0.
\<close>

theorem create_after_destroy_aborts:
  assumes "create new_size fresh s = Inr s1" and "run ops s1 = Inr s2"
  shows "\<exists>s3. destroy s2 = Inr s3 \<and> buffer s3 = Freed \<and>
           allocated_size s3 = 0 \<and> free_space s3 = 0 \<and> head s3 = 0 \<and> tail s3 = 0 \<and>
           create new_size' fresh' s3 = Inl AssertBufferNull"
proof -
  from assms(1) have "\<exists>b. buffer s1 = Live b"
    by (auto simp: create_def split: if_splits)
  then obtain b where "buffer s2 = Live b" using run_live[OF assms(2)] by blast
  then show ?thesis
    by (simp add: destroy_def clear_def create_def)
qed

theorem create_after_destroy_aborts_witness:
  "create 4 zero_filled new_CircularBuffer = Inr ring4_created \<and>
   run [Push (Some [1, 2]) 2, Push (Some [3, 4]) 2] ring4_created = Inr ring4_full \<and>
   (\<exists>s3. destroy ring4_full = Inr s3 \<and> buffer s3 = Freed \<and>
      allocated_size s3 = 0 \<and> free_space s3 = 0 \<and> head s3 = 0 \<and> tail s3 = 0 \<and>
      create 8 zero_filled s3 = Inl AssertBufferNull)"
proof -
  have c: "create 4 zero_filled new_CircularBuffer = Inr ring4_created"
    by code_simp
  have r: "run [Push (Some [1, 2]) 2, Push (Some [3, 4]) 2] ring4_created = Inr ring4_full"
    by code_simp
  show ?thesis using c r create_after_destroy_aborts[OF c r] by simp
qed

end
